theory Spec2Isabelle
  imports Main
begin

section \<open>The autocast outlining pass of \<^verbatim>\<open>torch/_export/passes/replace_autocast_with_hop_pass.py\<close>\<close>

text \<open>
  The pass rewrites an FX graph module: every outer-most span of instructions between an
  \<^verbatim>\<open>_enter_autocast\<close> and its \<^verbatim>\<open>_exit_autocast\<close> is split off into a child graph module and
  the call of that child is replaced by one \<^verbatim>\<open>wrap_with_autocast\<close> node.

  Python names that start with an underscore lose it here (\<^verbatim>\<open>_replace_with_hop\<close> is
  \<open>replace_with_hop\<close>), since an Isabelle name cannot start with one.
\<close>

subsection \<open>Data model\<close>

text \<open>
  A node of \<^verbatim>\<open>torch.fx\<close> is a mutable object that other nodes refer to by identity. Here a
  node carries its identity as the field \<open>nid\<close>, which no operation changes, and an argument
  refers to a node through it; the field \<open>name\<close> is the node's printed name, which
  \<^verbatim>\<open>_rename\<close> does change. Keyword arguments are left out: the pass never reads them and
  creates its own nodes with \<^verbatim>\<open>{}\<close>.
\<close>

datatype opcode = Placeholder | CallFunction | CallMethod | CallModule | GetAttr | Output

datatype target =
    EnterAutocast
  | ExitAutocast
  | WrapWithAutocast
  | GetItem
  | Fn string
  | Str string

datatype argument =
    ANode nat
  | ANone
  | AInt int
  | ABool bool
  | AStr string
  | ATuple "argument list"
  | AList "argument list"

datatype metaval =
    MAtom string
  | MTuple "metaval list"
  | MDict "(string \<times> metaval) list"

record node =
  nid :: nat
  name :: string
  op :: opcode
  target :: target
  args :: "argument list"
  meta :: "string \<rightharpoonup> metaval"

text \<open>
  A graph module owns its graph (the nodes in program order) and its attributes; an
  attribute is a child graph module (\<open>Some\<close>) or anything else, a tensor say (\<open>None\<close>).
\<close>

datatype graph_module =
  GraphModule (graph: "node list") (attrs: "(string \<times> graph_module option) list")

datatype pytype = TyNode | TyNone | TyInt | TyBool | TyStr | TyTuple | TyList

datatype error =
    AssertionError
  | IndexError
  | KeyError string
  | AttributeError
  | TypeError
  | StopIteration
  | RuntimeError
  | NotImplementedError pytype

fun type_of :: "argument \<Rightarrow> pytype" where
  "type_of (ANode _) = TyNode"
| "type_of ANone = TyNone"
| "type_of (AInt _) = TyInt"
| "type_of (ABool _) = TyBool"
| "type_of (AStr _) = TyStr"
| "type_of (ATuple _) = TyTuple"
| "type_of (AList _) = TyList"

text \<open>Sequencing of steps that may raise: the first error ends the run.\<close>

definition thn :: "error + 'a \<Rightarrow> ('a \<Rightarrow> error + 'b) \<Rightarrow> error + 'b" where
  "thn r f = (case r of Inl e \<Rightarrow> Inl e | Inr x \<Rightarrow> f x)"

definition py_assert :: "bool \<Rightarrow> error + unit" where
  "py_assert b = (if b then Inr () else Inl AssertionError)"

subsection \<open>Host IR operations\<close>

text \<open>
  Modelled from the spec: the operations of the host IR (\<^verbatim>\<open>torch.fx\<close>, not part of the
  sources at hand) that the pass calls, which the spec lists as node
  creation/insertion-before-a-point, node deletion, subgraph attribute get/set, node
  renaming and metadata dictionaries.
\<close>

definition find_node :: "node list \<Rightarrow> nat \<Rightarrow> node option" where
  "find_node g i = find (\<lambda>n. nid n = i) g"

fun arg_refs :: "argument \<Rightarrow> nat list" where
  "arg_refs (ANode i) = [i]"
| "arg_refs (ATuple xs) = concat (map arg_refs xs)"
| "arg_refs (AList xs) = concat (map arg_refs xs)"
| "arg_refs _ = []"

definition node_refs :: "node \<Rightarrow> nat list" where
  "node_refs n = concat (map arg_refs (args n))"

definition users :: "node list \<Rightarrow> nat \<Rightarrow> node list" where
  "users g i = filter (\<lambda>n. i \<in> set (node_refs n)) g"

fun subst_arg :: "(nat \<Rightarrow> nat) \<Rightarrow> argument \<Rightarrow> argument" where
  "subst_arg f (ANode i) = ANode (f i)"
| "subst_arg f (ATuple xs) = ATuple (map (subst_arg f) xs)"
| "subst_arg f (AList xs) = AList (map (subst_arg f) xs)"
| "subst_arg f a = a"

definition subst_node :: "(nat \<Rightarrow> nat) \<Rightarrow> node \<Rightarrow> node" where
  "subst_node f n = n\<lparr>args := map (subst_arg f) (args n)\<rparr>"

definition replace_all_uses_with :: "node list \<Rightarrow> nat \<Rightarrow> nat \<Rightarrow> node list" where
  "replace_all_uses_with g old new = map (subst_node (\<lambda>i. if i = old then new else i)) g"

definition remove_node :: "node list \<Rightarrow> nat \<Rightarrow> node list" where
  "remove_node g i = filter (\<lambda>n. nid n \<noteq> i) g"

text \<open>Deleting a node that is still referenced is refused, as \<^verbatim>\<open>Graph.erase_node\<close> does.\<close>

definition erase_node :: "node list \<Rightarrow> nat \<Rightarrow> error + node list" where
  "erase_node g i = (if users g i \<noteq> [] then Inl RuntimeError else Inr (remove_node g i))"

definition insert_before :: "node list \<Rightarrow> nat \<Rightarrow> node \<Rightarrow> node list" where
  "insert_before g i n =
     takeWhile (\<lambda>m. nid m \<noteq> i) g @ [n] @ dropWhile (\<lambda>m. nid m \<noteq> i) g"

text \<open>
  Modelled from the spec: the names of a graph are unique. A new or renamed node takes
  the name it asks for when no node of the graph has it. Otherwise the asked name loses
  its numeric suffix \<^verbatim>\<open>_n\<close>, if it has one, and the node takes the first free name among
  \<^verbatim>\<open>base_(n+1)\<close>, \<^verbatim>\<open>base_(n+2)\<close>, and so on, where \<open>n\<close> is 0 without a suffix. The names in use
  are those of the nodes of the graph: the names of erased nodes and the reserved words
  of Python, which the host also avoids, are left out.
\<close>

fun string_of_nat :: "nat \<Rightarrow> string" where
  "string_of_nat n =
     (if n < 10 then [''0123456789'' ! n]
      else string_of_nat (n div 10) @ [''0123456789'' ! (n mod 10)])"

definition is_digit :: "char \<Rightarrow> bool" where
  "is_digit c \<longleftrightarrow> c \<in> set ''0123456789''"

definition digit_value :: "char \<Rightarrow> nat" where
  "digit_value c = of_char c - 48"

definition nat_of_digits :: "string \<Rightarrow> nat" where
  "nat_of_digits ds = foldl (\<lambda>n c. 10 * n + digit_value c) 0 ds"

definition name_suffix :: "string \<Rightarrow> string \<times> nat" where
  "name_suffix nm =
     (let ds = takeWhile is_digit (rev nm)
      in case dropWhile is_digit (rev nm) of
           c # b \<Rightarrow>
             if c = CHR ''_'' \<and> ds \<noteq> [] \<and> b \<noteq> [] then (rev b, nat_of_digits (rev ds))
             else (nm, 0)
         | [] \<Rightarrow> (nm, 0))"

definition numbered :: "string \<Rightarrow> nat \<Rightarrow> string" where
  "numbered base k = base @ ''_'' @ string_of_nat k"

definition create_name :: "string list \<Rightarrow> string \<Rightarrow> string" where
  "create_name used candidate =
     (if candidate \<notin> set used then candidate
      else case name_suffix candidate of
             (base, num) \<Rightarrow>
               (case find (\<lambda>k. numbered base k \<notin> set used) [Suc num..<num + length used + 2] of
                  Some k \<Rightarrow> numbered base k
                | None \<Rightarrow> candidate))"

text \<open>
  A new node of graph \<open>g\<close>, with an identity no node of \<open>g\<close> has, a name no node of \<open>g\<close>
  has, and no metadata yet.
\<close>

definition fresh_id :: "node list \<Rightarrow> nat" where
  "fresh_id g = fold (\<lambda>n m. max (Suc (nid n)) m) g 0"

definition create_node :: "node list \<Rightarrow> string \<Rightarrow> opcode \<Rightarrow> target \<Rightarrow> argument list \<Rightarrow> node" where
  "create_node g nm k tg as =
     \<lparr>nid = fresh_id g, name = create_name (map name g) nm, op = k, target = tg, args = as,
      meta = Map.empty\<rparr>"

text \<open>
  \<^verbatim>\<open>Node._rename(candidate)\<close>: the name that node \<open>n\<close> of graph \<open>g\<close> has afterwards. Asking
  for the name the node already has changes nothing.
\<close>

definition rename_to :: "node list \<Rightarrow> node \<Rightarrow> string \<Rightarrow> string" where
  "rename_to g n candidate =
     (if candidate = name n then name n else create_name (map name g) candidate)"

definition update_node :: "node list \<Rightarrow> nat \<Rightarrow> (node \<Rightarrow> node) \<Rightarrow> node list" where
  "update_node g i f = map (\<lambda>n. if nid n = i then f n else n) g"

definition setattr :: "(string \<times> 'a) list \<Rightarrow> string \<Rightarrow> 'a \<Rightarrow> (string \<times> 'a) list" where
  "setattr as k v =
     (if k \<in> fst ` set as then map (\<lambda>(k', v'). if k' = k then (k', v) else (k', v')) as
      else as @ [(k, v)])"

text \<open>
  \<^verbatim>\<open>getattr(gm, target)\<close> followed by a use as a graph module: a missing attribute and an
  attribute without a graph both end in an \<^verbatim>\<open>AttributeError\<close>.
\<close>

definition get_submodule :: "graph_module \<Rightarrow> string \<Rightarrow> error + graph_module" where
  "get_submodule gm t =
     (case map_of (attrs gm) t of Some (Some sub) \<Rightarrow> Inr sub | _ \<Rightarrow> Inl AttributeError)"

text \<open>
  Modelled from the spec: the replace hook of the named-output-specification. While a hook
  is installed, replacing or renaming a node that the output instruction uses reports
  the pair (old name, new name) to it.
\<close>

type_synonym rename = "string \<times> string"

definition hook_events :: "node list \<Rightarrow> nat \<Rightarrow> string \<Rightarrow> rename list" where
  "hook_events g i new_name =
     (case find_node g i of
        None \<Rightarrow> []
      | Some old \<Rightarrow> map (\<lambda>u. (name old, new_name)) (filter (\<lambda>u. op u = Output) (users g i)))"

text \<open>
  Modelled from the spec: the list helpers of \<^verbatim>\<open>torch/_export/utils.py\<close> (not part of the
  sources at hand): the nodes that satisfy a predicate, the first of them, and
  \<^verbatim>\<open>node_replace_\<close>, which redirects every use of a node to another one and deletes it
  when asked to.
\<close>

definition nodes_filter :: "node list \<Rightarrow> (node \<Rightarrow> bool) \<Rightarrow> node list" where
  "nodes_filter ns p = filter p ns"

definition nodes_first :: "node list \<Rightarrow> (node \<Rightarrow> bool) \<Rightarrow> node option" where
  "nodes_first ns p = (case nodes_filter ns p of [] \<Rightarrow> None | n # _ \<Rightarrow> Some n)"

definition node_replace :: "node list \<Rightarrow> nat \<Rightarrow> nat \<Rightarrow> bool \<Rightarrow> node list" where
  "node_replace g old new delete_old =
     (let g' = replace_all_uses_with g old new
      in if delete_old then remove_node g' old else g')"

subsection \<open>Marker classifier\<close>

definition is_autocast_node :: "node \<Rightarrow> bool" where
  "is_autocast_node n \<longleftrightarrow>
     op n = CallFunction \<and> target n \<in> set [EnterAutocast, ExitAutocast]"

definition is_enter_autocast_node :: "node \<Rightarrow> bool" where
  "is_enter_autocast_node n \<longleftrightarrow> op n = CallFunction \<and> target n = EnterAutocast"

definition is_exit_autocast_node :: "node \<Rightarrow> bool" where
  "is_exit_autocast_node n \<longleftrightarrow> op n = CallFunction \<and> target n = ExitAutocast"

definition is_autocast_sub_mod :: "graph_module \<Rightarrow> node \<Rightarrow> error + bool" where
  "is_autocast_sub_mod gm n =
     (if op n = CallModule then
        case target n of
          Str t \<Rightarrow>
            thn (get_submodule gm t) (\<lambda>subgm.
              case nodes_first (graph subgm) (\<lambda>m. op m \<noteq> Placeholder) of
                None \<Rightarrow> Inr False
              | Some first_non_ph \<Rightarrow>
                  Inr (op first_non_ph = CallFunction \<and> target first_non_ph = EnterAutocast))
        | _ \<Rightarrow> Inl AssertionError
      else Inr False)"

definition check_valid_autocast_block :: "node \<Rightarrow> node \<Rightarrow> error + unit" where
  "check_valid_autocast_block enter_autocast_node exit_autocast_node =
     thn (py_assert (is_enter_autocast_node enter_autocast_node)) (\<lambda>_.
     thn (py_assert (is_exit_autocast_node exit_autocast_node)) (\<lambda>_.
       case args exit_autocast_node of
         [] \<Rightarrow> Inl IndexError
       | a # _ \<Rightarrow> py_assert (a = ANode (nid enter_autocast_node))))"

subsection \<open>Region outliner\<close>

text \<open>
  A reference to a node of graph \<open>g\<close>, read as that node. An argument that is no node has
  no \<^verbatim>\<open>name\<close> and no \<^verbatim>\<open>meta\<close> (\<^verbatim>\<open>AttributeError\<close>). The last case, a reference to
  a node the graph does not hold, cannot arise in the host IR.
\<close>

definition member_node :: "node list \<Rightarrow> argument \<Rightarrow> error + node" where
  "member_node g a =
     (case a of
        ANode m \<Rightarrow> (case find_node g m of Some n \<Rightarrow> Inr n | None \<Rightarrow> Inl RuntimeError)
      | _ \<Rightarrow> Inl AttributeError)"

text \<open>\<^verbatim>\<open>tuple(arg.meta["val"] for arg in output_args)\<close>\<close>

fun member_vals :: "node list \<Rightarrow> argument list \<Rightarrow> error + metaval list" where
  "member_vals g [] = Inr []"
| "member_vals g (a # as) =
     thn (member_node g a) (\<lambda>n.
       case meta n ''val'' of
         None \<Rightarrow> Inl (KeyError ''val'')
       | Some v \<Rightarrow> thn (member_vals g as) (\<lambda>vs. Inr (v # vs)))"

text \<open>\<^verbatim>\<open>output_args[idx]\<close>: a negative index counts from the end, a bool is an int.\<close>

definition index_int :: "'a list \<Rightarrow> int \<Rightarrow> error + 'a" where
  "index_int xs i =
     (if 0 \<le> i \<and> i < int (length xs) then Inr (xs ! nat i)
      else if i < 0 \<and> - int (length xs) \<le> i then Inr (xs ! nat (int (length xs) + i))
      else Inl IndexError)"

definition py_index :: "'a list \<Rightarrow> argument \<Rightarrow> error + 'a" where
  "py_index xs idx =
     (case idx of
        AInt i \<Rightarrow> index_int xs i
      | ABool b \<Rightarrow> index_int xs (if b then 1 else 0)
      | _ \<Rightarrow> Inl TypeError)"

text \<open>
  The loop over \<^verbatim>\<open>call_func_node.users\<close>: every user is taken for a per-index extraction
  \<^verbatim>\<open>getitem(call, idx)\<close>, renamed after member \<open>idx\<close> of the child's output and given
  that member's metadata. A user is visited once, so the name it has when its turn
  comes is the name it had when the loop started.
\<close>

fun rename_getitem_users ::
  "node list \<Rightarrow> argument list \<Rightarrow> node list \<Rightarrow> node list \<Rightarrow> error + (node list \<times> rename list)" where
  "rename_getitem_users sub_graph output_args [] g = Inr (g, [])"
| "rename_getitem_users sub_graph output_args (get_item_node # rest) g =
     (case args get_item_node of
        _ # idx # _ \<Rightarrow>
          thn (py_index output_args idx) (\<lambda>a.
          thn (member_node sub_graph a) (\<lambda>output_node.
            let new_name = rename_to g get_item_node (name output_node);
                told = (if new_name = name get_item_node then []
                        else hook_events g (nid get_item_node) new_name);
                g' = update_node g (nid get_item_node)
                       (\<lambda>n. n\<lparr>name := new_name, meta := meta output_node\<rparr>)
            in thn (rename_getitem_users sub_graph output_args rest g') (\<lambda>(g'', evs).
                 Inr (g'', told @ evs))))
      | _ \<Rightarrow> Inl IndexError)"

definition nn_module_stack_of :: "node \<Rightarrow> metaval" where
  "nn_module_stack_of n =
     (case meta n ''nn_module_stack'' of Some v \<Rightarrow> v | None \<Rightarrow> MDict [])"

definition wrap_args :: "node \<Rightarrow> node \<Rightarrow> node \<Rightarrow> argument list" where
  "wrap_args enter_autocast_node get_attr_node n =
     [ATuple (args enter_autocast_node), ANode (nid get_attr_node)] @ args n"

text \<open>Source lines 90 to 93: \<^verbatim>\<open>graph.get_attr(node.target)\<close> and its \<^verbatim>\<open>nn_module_stack\<close>.\<close>

definition get_attr_node_of :: "node list \<Rightarrow> string \<Rightarrow> node \<Rightarrow> node" where
  "get_attr_node_of g t enter_autocast_node =
     (create_node g t GetAttr (Str t) [])
       \<lparr>meta := map_of [(''nn_module_stack'', nn_module_stack_of enter_autocast_node)]\<rparr>"

text \<open>
  The \<^verbatim>\<open>wrap_with_autocast\<close> node of either branch, with the name and the metadata the
  branch gives it, and the metadata of source lines 112 to 121.
\<close>

definition wrap_node ::
  "node list \<Rightarrow> string \<Rightarrow> node \<Rightarrow> node \<Rightarrow> node \<Rightarrow> (string \<rightharpoonup> metaval) \<Rightarrow> node" where
  "wrap_node g1 nm enter_autocast_node get_attr_node n mt =
     (create_node g1 nm CallFunction WrapWithAutocast
        (wrap_args enter_autocast_node get_attr_node n))\<lparr>meta := mt\<rparr>"

definition wrap_meta :: "metaval list \<Rightarrow> node \<Rightarrow> (string \<rightharpoonup> metaval)" where
  "wrap_meta vals enter_autocast_node =
     map_of
       [(''val'', MTuple vals),
        (''nn_module_stack'', nn_module_stack_of enter_autocast_node),
        (''torch_fn'', MTuple [MAtom ''wrap_with_autocast'',
           MAtom ''WrapWithAutocast.wrap_with_autocast''])]"

text \<open>
  \<^verbatim>\<open>_replace_with_hop(node)\<close>, for the node with identity \<open>i\<close> of the graph of \<open>gm\<close>, in
  four parts: the two branches that create the \<^verbatim>\<open>wrap_with_autocast\<close> node, the choice
  between them on the child's output, and the function itself. The result is the graph
  module after the mutation of its graph and of the child's graph, with the renames
  reported to an installed hook.
\<close>

definition last_output_node :: "node list \<Rightarrow> node option" where
  "last_output_node sub_graph =
     (case rev sub_graph of
        [] \<Rightarrow> None
      | l # _ \<Rightarrow> if op l \<noteq> Output then None else Some l)"

text \<open>The branch \<^verbatim>\<open>isinstance(output_args, (tuple, list))\<close>, source lines 106 to 131.\<close>

definition hop_tuple_output ::
  "node list \<Rightarrow> node list \<Rightarrow> node \<Rightarrow> node \<Rightarrow> node \<Rightarrow> argument list \<Rightarrow> error + (node list \<times> rename list)" where
  "hop_tuple_output g1 sub_graph n enter_autocast_node get_attr_node members =
     thn (member_vals sub_graph members) (\<lambda>vals.
       let call_func_node =
             wrap_node g1 ''wrap_with_autocast'' enter_autocast_node get_attr_node n
               (wrap_meta vals enter_autocast_node);
           g2 = insert_before g1 (nid n) call_func_node;
           g3 = node_replace g2 (nid n) (nid call_func_node) True
       in thn (rename_getitem_users sub_graph members (users g3 (nid call_func_node)) g3)
            (\<lambda>(g4, evs). Inr (g4, hook_events g2 (nid n) (name call_func_node) @ evs)))"

text \<open>The branch \<^verbatim>\<open>isinstance(output_args, torch.fx.Node)\<close>, source lines 133 to 142.\<close>

definition hop_single_output ::
  "node list \<Rightarrow> node list \<Rightarrow> node \<Rightarrow> node \<Rightarrow> node \<Rightarrow> argument \<Rightarrow> error + (node list \<times> rename list)" where
  "hop_single_output g1 sub_graph n enter_autocast_node get_attr_node output_args =
     thn (member_node sub_graph output_args) (\<lambda>out_member.
       let call_func_node =
             wrap_node g1 (name out_member) enter_autocast_node get_attr_node n
               (meta out_member);
           g2 = insert_before g1 (nid n) call_func_node
       in Inr (node_replace g2 (nid n) (nid call_func_node) True,
               hook_events g2 (nid n) (name call_func_node)))"

text \<open>Source lines 94 to 149: the child's last node decides what replaces the call.\<close>

definition replace_call ::
  "node list \<Rightarrow> node list \<Rightarrow> node \<Rightarrow> node \<Rightarrow> node \<Rightarrow> error + (node list \<times> rename list)" where
  "replace_call g1 sub_graph n enter_autocast_node get_attr_node =
     (case last_output_node sub_graph of
        Some output_node \<Rightarrow>
          if length (args output_node) \<noteq> 1 then Inl AssertionError
          else
            let output_args = hd (args output_node) in
            (case output_args of
               ATuple members \<Rightarrow>
                 hop_tuple_output g1 sub_graph n enter_autocast_node get_attr_node members
             | AList members \<Rightarrow>
                 hop_tuple_output g1 sub_graph n enter_autocast_node get_attr_node members
             | ANode _ \<Rightarrow>
                 hop_single_output g1 sub_graph n enter_autocast_node get_attr_node output_args
             | _ \<Rightarrow> Inl (NotImplementedError (type_of output_args)))
      | None \<Rightarrow> thn (erase_node g1 (nid n)) (\<lambda>g2. Inr (g2, [])))"

definition replace_with_hop :: "graph_module \<Rightarrow> nat \<Rightarrow> error + (graph_module \<times> rename list)" where
  "replace_with_hop gm i =
     (case find_node (graph gm) i of
        None \<Rightarrow> Inl RuntimeError
      | Some n \<Rightarrow>
          (case (op n, target n) of
             (CallModule, Str t) \<Rightarrow>
               thn (get_submodule gm t) (\<lambda>sub_gm.
                 let sub_graph = graph sub_gm;
                     autocast_nodes = nodes_filter sub_graph is_autocast_node
                 in if length autocast_nodes > 0 then
                      if \<not> length autocast_nodes > 1 then Inl AssertionError
                      else
                        let enter_autocast_node = hd autocast_nodes;
                            exit_autocast_node = last autocast_nodes
                        in thn (check_valid_autocast_block enter_autocast_node exit_autocast_node) (\<lambda>_.
                             let get_attr_node = get_attr_node_of (graph gm) t enter_autocast_node;
                                 g1 = insert_before (graph gm) i get_attr_node
                             in thn (replace_call g1 sub_graph n enter_autocast_node get_attr_node)
                                  (\<lambda>(g', evs).
                                    thn (erase_node sub_graph (nid exit_autocast_node)) (\<lambda>sg1.
                                    thn (erase_node sg1 (nid enter_autocast_node)) (\<lambda>sg2.
                                      Inr (GraphModule g'
                                             (setattr (attrs gm) t
                                                (Some (GraphModule sg2 (attrs sub_gm)))),
                                           evs)))))
                    else Inr (gm, []))
           | _ \<Rightarrow> Inl AssertionError))"

subsection \<open>Region boundary tracker\<close>

text \<open>
  The two \<^verbatim>\<open>nonlocal\<close> variables of \<^verbatim>\<open>_split_autocast\<close> are the state of its callback.
  \<^verbatim>\<open>node.args[0] == last_enter_autocast_node\<close> compares with a node, so it holds exactly
  for a reference to that node; \<^verbatim>\<open>node.args[0]\<close> on an empty tuple raises.
\<close>

record tracker =
  enter_autocast_node_stack :: "node list"
  first_node_after_outer_most_exit :: bool

definition tracker_init :: tracker where
  "tracker_init =
     \<lparr>enter_autocast_node_stack = [], first_node_after_outer_most_exit = False\<rparr>"

definition node_call_back :: "tracker \<Rightarrow> node \<Rightarrow> error + (bool \<times> tracker)" where
  "node_call_back s n =
     (if first_node_after_outer_most_exit s
         \<or> (length (enter_autocast_node_stack s) = 0 \<and> is_enter_autocast_node n)
      then
        if length (enter_autocast_node_stack s) \<noteq> 0 then Inl AssertionError
        else
          let s1 = s\<lparr>first_node_after_outer_most_exit := False\<rparr>;
              s2 = (if is_enter_autocast_node n
                    then s1\<lparr>enter_autocast_node_stack := enter_autocast_node_stack s1 @ [n]\<rparr>
                    else s1)
          in Inr (True, s2)
      else if is_exit_autocast_node n then
        if \<not> length (enter_autocast_node_stack s) > 0 then Inl AssertionError
        else
          let last_enter_autocast_node = last (enter_autocast_node_stack s);
              s1 = s\<lparr>enter_autocast_node_stack := butlast (enter_autocast_node_stack s)\<rparr>
          in case args n of
               [] \<Rightarrow> Inl IndexError
             | a # _ \<Rightarrow>
                 if a \<noteq> ANode (nid last_enter_autocast_node) then Inl AssertionError
                 else if length (enter_autocast_node_stack s1) = 0
                 then Inr (False, s1\<lparr>first_node_after_outer_most_exit := True\<rparr>)
                 else Inr (False, s1)
      else Inr (False, s))"

text \<open>
  Modelled from the spec: the traversal of \<^verbatim>\<open>sequential_split\<close> (\<^verbatim>\<open>torch/_export/utils.py\<close>,
  not part of the sources at hand). The callback is asked once per instruction, in program
  order; an instruction at which it answers true starts the next segment. The result is
  the segment number of every instruction.
\<close>

fun split_map :: "('s \<Rightarrow> node \<Rightarrow> error + (bool \<times> 's)) \<Rightarrow> 's \<Rightarrow> nat \<Rightarrow> node list \<Rightarrow> error + nat list" where
  "split_map cb s split_id [] = Inr []"
| "split_map cb s split_id (n # ns) =
     thn (cb s n) (\<lambda>(b, s').
       let split_id' = (if b then split_id + 1 else split_id)
       in thn (split_map cb s' split_id' ns) (\<lambda>ids. Inr (split_id' # ids)))"

subsection \<open>Sequential splitter\<close>

text \<open>
  Modelled from the spec: \<^verbatim>\<open>sequential_split\<close> (\<^verbatim>\<open>torch/_export/utils.py\<close>, not part of the
  sources at hand). The instructions other than graph inputs and the output instruction
  are cut into contiguous segments where the callback answered true. Each segment
  becomes a child graph: a placeholder for every value it reads from outside (in the
  order of first use), its instructions, and an output instruction for the values read
  outside it (none: no output instruction; one: that value; several: a tuple). The new
  top-level graph holds the inputs, one subgraph invocation per segment in the original
  order, followed by one per-index extraction per value when there are several, and the
  output instruction; its new nodes take names that are unique in it. A child sees the
  attributes of the module it was split from. A placeholder of a child keeps the
  identity of the value it stands for, so the instructions of the segment are taken
  over as they are.
\<close>

definition segment_inputs :: "node list \<Rightarrow> nat list" where
  "segment_inputs seg =
     rev (remdups (rev (filter (\<lambda>i. i \<notin> set (map nid seg)) (concat (map node_refs seg)))))"

definition segment_outputs :: "node list \<Rightarrow> node list \<Rightarrow> nat list" where
  "segment_outputs g seg =
     filter (\<lambda>i. list_ex (\<lambda>n. nid n \<notin> set (map nid seg) \<and> i \<in> set (node_refs n)) g)
       (map nid seg)"

definition mk_placeholder :: "node list \<Rightarrow> nat \<Rightarrow> node" where
  "mk_placeholder g i =
     (case find_node g i of
        Some d \<Rightarrow> \<lparr>nid = i, name = name d, op = Placeholder, target = Str (name d),
                   args = [], meta = meta d\<rparr>
      | None \<Rightarrow> \<lparr>nid = i, name = [], op = Placeholder, target = Str [],
                 args = [], meta = Map.empty\<rparr>)"

definition output_instr :: "nat \<Rightarrow> argument \<Rightarrow> node" where
  "output_instr i a =
     \<lparr>nid = i, name = ''output'', op = Output, target = Str ''output'', args = [a],
      meta = Map.empty\<rparr>"

definition segment_graph :: "node list \<Rightarrow> node list \<Rightarrow> node list" where
  "segment_graph g seg =
     (let body = map (mk_placeholder g) (segment_inputs seg) @ seg
      in case segment_outputs g seg of
           [] \<Rightarrow> body
         | [v] \<Rightarrow> body @ [output_instr (fresh_id body) (ANode v)]
         | vs \<Rightarrow> body @ [output_instr (fresh_id body) (ATuple (map ANode vs))])"

text \<open>
  The per-index extractions of the call \<open>call\<close>, created one after the other; \<open>used\<close> are
  the names of the nodes that the new graph holds so far.
\<close>

fun extractions :: "nat \<Rightarrow> nat list \<Rightarrow> string list \<Rightarrow> node list" where
  "extractions call [] used = []"
| "extractions call (j # js) used =
     (let getitem = \<lparr>nid = call + 1 + j, name = create_name used ''getitem'',
                       op = CallFunction, target = GetItem,
                       args = [ANode call, AInt (int j)], meta = Map.empty\<rparr>
      in getitem # extractions call js (name getitem # used))"

fun split_segments ::
  "(string \<times> graph_module option) list \<Rightarrow> node list \<Rightarrow> (nat \<times> node list) list \<Rightarrow> nat \<Rightarrow> (nat \<Rightarrow> nat)
     \<Rightarrow> string list \<Rightarrow> node list \<times> (string \<times> graph_module option) list \<times> (nat \<Rightarrow> nat)" where
  "split_segments as g [] next env used = ([], [], env)"
| "split_segments as g ((k, seg) # rest) next env used =
     (let outs = segment_outputs g seg;
          submod = ''submod_'' @ string_of_nat k;
          call = \<lparr>nid = next, name = create_name used submod, op = CallModule,
                  target = Str submod,
                  args = map (\<lambda>i. ANode (env i)) (segment_inputs seg), meta = Map.empty\<rparr>;
          getitems = (if length outs > 1
                      then extractions next [0..<length outs] (name call # used) else []);
          carriers = (if length outs > 1 then map nid getitems else [next]);
          env' = fold (\<lambda>(v, c) e. e(v := c)) (zip outs carriers) env
      in case split_segments as g rest (next + 1 + length getitems) env'
                (rev (map name getitems) @ name call # used) of
           (ns, subs, env'') \<Rightarrow>
             (call # getitems @ ns,
              (submod, Some (GraphModule (segment_graph g seg) as)) # subs,
              env''))"

definition split_module :: "graph_module \<Rightarrow> nat list \<Rightarrow> graph_module" where
  "split_module gm ids =
     (let g = graph gm;
          body = filter (\<lambda>(n, k). op n \<noteq> Placeholder \<and> op n \<noteq> Output) (zip g ids);
          segments = map (\<lambda>k. (k, map fst (filter (\<lambda>(n, k'). k' = k) body)))
                       (remdups (map snd body))
      in case split_segments (attrs gm) g segments (fresh_id g) id
                (rev (map name (filter (\<lambda>n. op n = Placeholder) g))) of
           (calls, subs, env) \<Rightarrow>
             GraphModule
               (filter (\<lambda>n. op n = Placeholder) g @ calls
                  @ map (subst_node env) (filter (\<lambda>n. op n = Output) g))
               (fold (\<lambda>(k, v) as. setattr as k v) subs (attrs gm)))"

definition sequential_split ::
  "graph_module \<Rightarrow> ('s \<Rightarrow> node \<Rightarrow> error + (bool \<times> 's)) \<Rightarrow> 's \<Rightarrow> error + graph_module" where
  "sequential_split gm cb s0 =
     thn (split_map cb s0 0 (graph gm)) (\<lambda>ids. Inr (split_module gm ids))"

definition split_autocast :: "graph_module \<Rightarrow> error + graph_module" where
  "split_autocast gm = sequential_split gm node_call_back tracker_init"

subsection \<open>Inlining a segment\<close>

text \<open>
  Modelled from the spec: \<^verbatim>\<open>node_inline_\<close> (\<^verbatim>\<open>torch/_export/utils.py\<close>, not part of the sources
  at hand). The instructions of the child are spliced back into the parent in place of
  the invocation, as copies with fresh identities and with names that are unique in
  the parent; the child's placeholders stand for
  the arguments of the invocation; the uses of the invocation (one value) or of its
  per-index extractions (a tuple) are redirected to the values the child returns, and
  the invocation and the extractions are removed. At the end the child graph modules
  that no \<^verbatim>\<open>call_module\<close> or \<^verbatim>\<open>get_attr\<close> node of the graph names any more are deleted.
\<close>

definition delete_all_unused_submodules :: "graph_module \<Rightarrow> graph_module" where
  "delete_all_unused_submodules gm =
     GraphModule (graph gm)
       (filter (\<lambda>(k, v). case v of
                   None \<Rightarrow> True
                 | Some _ \<Rightarrow>
                     list_ex (\<lambda>n. (op n = CallModule \<or> op n = GetAttr) \<and> target n = Str k)
                       (graph gm))
          (attrs gm))"

definition arg_id :: "argument \<Rightarrow> nat" where
  "arg_id a = (case a of ANode i \<Rightarrow> i | _ \<Rightarrow> 0)"

fun inline_getitems ::
  "argument list \<Rightarrow> node list \<Rightarrow> node list \<Rightarrow> error + (node list \<times> rename list)" where
  "inline_getitems new_output [] g = Inr (g, [])"
| "inline_getitems new_output (get_item_node # rest) g =
     (case args get_item_node of
        _ # idx # _ \<Rightarrow>
          thn (py_index new_output idx) (\<lambda>a.
          thn (member_node g a) (\<lambda>v.
            thn (inline_getitems new_output rest (node_replace g (nid get_item_node) (nid v) True))
              (\<lambda>(g', evs). Inr (g', hook_events g (nid get_item_node) (name v) @ evs))))
      | _ \<Rightarrow> Inl IndexError)"

definition node_inline :: "graph_module \<Rightarrow> nat \<Rightarrow> error + (graph_module \<times> rename list)" where
  "node_inline gm i =
     (case find_node (graph gm) i of
        None \<Rightarrow> Inl RuntimeError
      | Some call_mod_node \<Rightarrow>
          (case (op call_mod_node, target call_mod_node) of
             (CallModule, Str t) \<Rightarrow>
               thn (get_submodule gm t) (\<lambda>sub_gm.
                 let phs = filter (\<lambda>n. op n = Placeholder) (graph sub_gm);
                     body = filter (\<lambda>n. op n \<noteq> Placeholder \<and> op n \<noteq> Output) (graph sub_gm);
                     output = filter (\<lambda>n. op n = Output) (graph sub_gm);
                     bound = zip (map nid phs) (args call_mod_node)
                 in if list_ex (\<lambda>(p, a). type_of a \<noteq> TyNode) bound then Inl AssertionError
                    else
                      let base = max (fresh_id (graph gm)) (fresh_id (graph sub_gm));
                          fresh = [base..<base + length body];
                          sigma = fold (\<lambda>(old, new) f. f(old := new))
                                    (map (\<lambda>(p, a). (p, arg_id a)) bound @ zip (map nid body) fresh) id;
                          copies = map (\<lambda>(n, j). (subst_node sigma n)\<lparr>nid := j\<rparr>) (zip body fresh);
                          g1 = fold (\<lambda>c g. insert_before g i
                                            (c\<lparr>name := create_name (map name g) (name c)\<rparr>))
                                 copies (graph gm)
                      in thn
                        (case output of
                           [] \<Rightarrow> thn (erase_node g1 i) (\<lambda>g2. Inr (g2, []))
                         | [out] \<Rightarrow>
                             if length (args out) \<noteq> 1 then Inl AssertionError
                             else
                               let new_output = subst_arg sigma (hd (args out)) in
                               (case new_output of
                                  ANode v \<Rightarrow>
                                    thn (member_node g1 new_output) (\<lambda>vn.
                                      Inr (node_replace g1 i v True, hook_events g1 i (name vn)))
                                | ATuple members \<Rightarrow>
                                    thn (inline_getitems members
                                           (filter (\<lambda>u. op u = CallFunction \<and> target u = GetItem)
                                              (users g1 i)) g1) (\<lambda>(g2, evs).
                                      thn (erase_node g2 i) (\<lambda>g3. Inr (g3, evs)))
                                | AList members \<Rightarrow>
                                    thn (inline_getitems members
                                           (filter (\<lambda>u. op u = CallFunction \<and> target u = GetItem)
                                              (users g1 i)) g1) (\<lambda>(g2, evs).
                                      thn (erase_node g2 i) (\<lambda>g3. Inr (g3, evs)))
                                | _ \<Rightarrow> Inl (NotImplementedError (type_of new_output)))
                         | _ \<Rightarrow> Inl AssertionError)
                        (\<lambda>(g', evs).
                           Inr (delete_all_unused_submodules (GraphModule g' (attrs gm)), evs)))
           | _ \<Rightarrow> Inl AssertionError))"

subsection \<open>Final validation\<close>

text \<open>
  Modelled from the spec: \<^verbatim>\<open>Graph.lint\<close> of the host IR, the validation of the structural
  invariants: every reference points to an instruction earlier in the sequence (no
  dangling reference, argument before use), and an output instruction has one argument.
\<close>

fun defined_before :: "nat list \<Rightarrow> node list \<Rightarrow> bool" where
  "defined_before seen [] = True"
| "defined_before seen (n # ns) =
     (list_all (\<lambda>i. i \<in> set seen) (node_refs n) \<and> defined_before (nid n # seen) ns)"

definition lint :: "node list \<Rightarrow> error + unit" where
  "lint g =
     (if defined_before [] g \<and> list_all (\<lambda>n. length (args n) = 1) (filter (\<lambda>n. op n = Output) g)
      then Inr () else Inl RuntimeError)"

subsection \<open>Named-output-specification\<close>

text \<open>
  The graph signature is an object the caller holds, so it lives in a store: a list of
  objects, an address being an index. Allocation appends. The classes are those of
  \<^verbatim>\<open>torch/export/graph_signature.py\<close> (not part of the sources at hand), reduced to what
  the pass reads. Modelled from the spec: a signature holds its ordered output entries,
  an entry holds its argument, and an argument has a name and may declare a value.
\<close>

type_synonym addr = nat

datatype obj =
    ExportGraphSignature "addr list"
  | OutputSpec addr
  | Argument string "argument option"

type_synonym heap = "obj list"

definition alloc :: "heap \<Rightarrow> obj \<Rightarrow> heap \<times> addr" where
  "alloc h x = (h @ [x], length h)"

definition output_specs :: "heap \<Rightarrow> addr \<Rightarrow> error + addr list" where
  "output_specs h r =
     (if r < length h
      then case h ! r of ExportGraphSignature specs \<Rightarrow> Inr specs | _ \<Rightarrow> Inl AttributeError
      else Inl AttributeError)"

definition spec_arg :: "heap \<Rightarrow> addr \<Rightarrow> error + addr" where
  "spec_arg h s =
     (if s < length h
      then case h ! s of OutputSpec a \<Rightarrow> Inr a | _ \<Rightarrow> Inl AttributeError
      else Inl AttributeError)"

definition argument_at :: "heap \<Rightarrow> addr \<Rightarrow> error + (string \<times> argument option)" where
  "argument_at h a =
     (if a < length h
      then case h ! a of Argument nm v \<Rightarrow> Inr (nm, v) | _ \<Rightarrow> Inl AttributeError
      else Inl AttributeError)"

text \<open>
  \<^verbatim>\<open>copy.deepcopy\<close>: every object reached from the signature is copied once (the memo
  keeps the copy of an object that is reached twice), the copies refer to each other.
\<close>

definition copy_argument ::
  "heap \<Rightarrow> (addr \<rightharpoonup> addr) \<Rightarrow> addr \<Rightarrow> error + (heap \<times> (addr \<rightharpoonup> addr) \<times> addr)" where
  "copy_argument h memo a =
     (case memo a of
        Some a' \<Rightarrow> Inr (h, memo, a')
      | None \<Rightarrow>
          thn (argument_at h a) (\<lambda>(nm, v).
            case alloc h (Argument nm v) of (h', a') \<Rightarrow> Inr (h', memo(a \<mapsto> a'), a')))"

definition copy_spec ::
  "heap \<Rightarrow> (addr \<rightharpoonup> addr) \<Rightarrow> addr \<Rightarrow> error + (heap \<times> (addr \<rightharpoonup> addr) \<times> addr)" where
  "copy_spec h memo s =
     (case memo s of
        Some s' \<Rightarrow> Inr (h, memo, s')
      | None \<Rightarrow>
          thn (spec_arg h s) (\<lambda>a.
          thn (copy_argument h memo a) (\<lambda>(h1, memo1, a').
            case alloc h1 (OutputSpec a') of (h2, s') \<Rightarrow> Inr (h2, memo1(s \<mapsto> s'), s'))))"

fun copy_specs ::
  "heap \<Rightarrow> (addr \<rightharpoonup> addr) \<Rightarrow> addr list \<Rightarrow> error + (heap \<times> (addr \<rightharpoonup> addr) \<times> addr list)" where
  "copy_specs h memo [] = Inr (h, memo, [])"
| "copy_specs h memo (s # ss) =
     thn (copy_spec h memo s) (\<lambda>(h1, memo1, s').
     thn (copy_specs h1 memo1 ss) (\<lambda>(h2, memo2, ss'). Inr (h2, memo2, s' # ss')))"

definition deepcopy :: "heap \<Rightarrow> addr \<Rightarrow> error + (heap \<times> addr)" where
  "deepcopy h r =
     thn (output_specs h r) (\<lambda>specs.
     thn (copy_specs h Map.empty specs) (\<lambda>(h1, memo, specs').
       Inr (alloc h1 (ExportGraphSignature specs'))))"

text \<open>The loop of source lines 217 to 223 over \<^verbatim>\<open>zip(new_gm_out_node.args[0], output_specs)\<close>.\<close>

fun reconcile :: "node list \<Rightarrow> heap \<Rightarrow> (argument \<times> addr) list \<Rightarrow> error + heap" where
  "reconcile g h [] = Inr h"
| "reconcile g h ((arg_node, out_spec) # rest) =
     thn (spec_arg h out_spec) (\<lambda>a.
     thn (argument_at h a) (\<lambda>(nm, v).
       if arg_node = ANone then
         (case v of
            None \<Rightarrow> Inl AttributeError
          | Some c \<Rightarrow> if c \<noteq> ANone then Inl AssertionError else reconcile g h rest)
       else
         thn (member_node g arg_node) (\<lambda>n.
           if nm \<noteq> name n then reconcile g (h[a := Argument (name n) v]) rest
           else reconcile g h rest)))"

definition sequence_items :: "argument \<Rightarrow> error + argument list" where
  "sequence_items a =
     (case a of ATuple xs \<Rightarrow> Inr xs | AList xs \<Rightarrow> Inr xs | _ \<Rightarrow> Inl TypeError)"

text \<open>Source lines 213 to 223, on the copy \<open>new_signature\<close>.\<close>

definition reconcile_signature :: "node list \<Rightarrow> heap \<Rightarrow> addr \<Rightarrow> error + heap" where
  "reconcile_signature g h new_signature =
     (case rev (filter (\<lambda>n. op n = Output) g) of
        [] \<Rightarrow> Inl StopIteration
      | new_gm_out_node # _ \<Rightarrow>
          (case args new_gm_out_node of
             [] \<Rightarrow> Inl IndexError
           | a # _ \<Rightarrow>
               thn (sequence_items a) (\<lambda>items.
               thn (output_specs h new_signature) (\<lambda>specs.
                 if length items \<noteq> length specs then Inl AssertionError
                 else reconcile g h (zip items specs)))))"

text \<open>
  Modelled from the spec: the hook \<^verbatim>\<open>new_signature.get_replace_hook()\<close>. For a reported
  pair (old name, new name) every output entry of that signature whose argument is named
  by the old name takes the new one. The kinds of arguments are not told apart here: the
  host renames the arguments that name a value of the graph and leaves constants alone.
\<close>

fun rename_specs :: "heap \<Rightarrow> addr list \<Rightarrow> rename \<Rightarrow> error + heap" where
  "rename_specs h [] ev = Inr h"
| "rename_specs h (s # ss) ev =
     thn (spec_arg h s) (\<lambda>a.
     thn (argument_at h a) (\<lambda>(nm, v).
       rename_specs (if nm = fst ev then h[a := Argument (snd ev) v] else h) ss ev))"

fun replace_hook :: "heap \<Rightarrow> addr \<Rightarrow> rename list \<Rightarrow> error + heap" where
  "replace_hook h r [] = Inr h"
| "replace_hook h r (ev # evs) =
     thn (output_specs h r) (\<lambda>specs.
     thn (rename_specs h specs ev) (\<lambda>h'. replace_hook h' r evs))"

subsection \<open>Driver\<close>

definition maybe_inline_or_replace_with_hop ::
  "graph_module \<Rightarrow> node \<Rightarrow> error + (graph_module \<times> rename list)" where
  "maybe_inline_or_replace_with_hop gm n =
     thn (is_autocast_sub_mod gm n) (\<lambda>b.
       if b then replace_with_hop gm (nid n)
       else (case (op n, target n) of
               (CallModule, Str _) \<Rightarrow> node_inline gm (nid n)
             | _ \<Rightarrow> Inl AssertionError))"

text \<open>
  \<^verbatim>\<open>nodes_map(list(new_gm.graph.nodes), ...)\<close>: the nodes of the snapshot are visited in
  order, the graph module is the live one.
\<close>

fun nodes_map :: "node list \<Rightarrow> graph_module \<Rightarrow> error + (graph_module \<times> rename list)" where
  "nodes_map [] gm = Inr (gm, [])"
| "nodes_map (n # ns) gm =
     (if op n = CallModule then
        thn (maybe_inline_or_replace_with_hop gm n) (\<lambda>(gm', evs).
        thn (nodes_map ns gm') (\<lambda>(gm'', evs'). Inr (gm'', evs @ evs')))
      else nodes_map ns gm)"

text \<open>
  \<^verbatim>\<open>_sequential_split_and_maybe_inline_subgraphs(gm, graph_signature)\<close> in the store \<open>h\<close>;
  \<open>graph_signature\<close> is the address of the caller's signature, or \<open>None\<close>. The hook
  is installed only around \<^verbatim>\<open>nodes_map\<close> and only writes to the signature, so what it
  was told is applied after the loop.
\<close>

definition sequential_split_and_maybe_inline_subgraphs ::
  "heap \<Rightarrow> graph_module \<Rightarrow> addr option \<Rightarrow> error + (graph_module \<times> addr option \<times> heap)" where
  "sequential_split_and_maybe_inline_subgraphs h gm graph_signature =
     (let need_replacing = list_ex is_autocast_node (graph gm)
      in if \<not> need_replacing then Inr (gm, graph_signature, h)
         else
           thn (split_autocast gm) (\<lambda>new_gm.
           thn (case graph_signature of
                  None \<Rightarrow> Inr (None, h)
                | Some r \<Rightarrow>
                    thn (deepcopy h r) (\<lambda>(h1, new_signature).
                    thn (reconcile_signature (graph new_gm) h1 new_signature) (\<lambda>h2.
                      Inr (Some new_signature, h2))))
             (\<lambda>(new_signature, h2).
                thn (nodes_map (graph new_gm) new_gm) (\<lambda>(gm', evs).
                thn (case new_signature of
                       None \<Rightarrow> Inr h2
                     | Some r' \<Rightarrow> replace_hook h2 r' evs)
                  (\<lambda>h3. Inr (gm', new_signature, h3))))))"

text \<open>
  The loop of \<^verbatim>\<open>replace_autocast_with_hop_pass\<close> over the nodes of the new graph; \<open>rec\<close> is
  the recursive call of the pass with no signature.
\<close>

fun descend ::
  "(heap \<Rightarrow> graph_module \<Rightarrow> (error + (graph_module \<times> heap)) option) \<Rightarrow> node list \<Rightarrow> heap
     \<Rightarrow> graph_module \<Rightarrow> (error + (graph_module \<times> heap)) option" where
  "descend rec [] h new_gm = Some (Inr (new_gm, h))"
| "descend rec (n # ns) h new_gm =
     (if op n = GetAttr then
        (case target n of
           Str t \<Rightarrow>
             (case map_of (attrs new_gm) t of
                None \<Rightarrow> Some (Inl AttributeError)
              | Some None \<Rightarrow> descend rec ns h new_gm
              | Some (Some subgm) \<Rightarrow>
                  (case rec h subgm of
                     None \<Rightarrow> None
                   | Some (Inl e) \<Rightarrow> Some (Inl e)
                   | Some (Inr (new_subgm, h')) \<Rightarrow>
                       descend rec ns h'
                         (GraphModule (graph new_gm) (setattr (attrs new_gm) t (Some new_subgm)))))
         | _ \<Rightarrow> Some (Inl TypeError))
      else descend rec ns h new_gm)"

text \<open>
  The recursion of the pass follows the children of the rewritten module, which are no
  part of its argument; \<open>fuel\<close> bounds its depth, and \<open>None\<close> is the answer of a run that
  needs more.
\<close>

fun replace_autocast_with_hop_pass ::
  "nat \<Rightarrow> heap \<Rightarrow> graph_module \<Rightarrow> addr option
     \<Rightarrow> (error + (graph_module \<times> addr option \<times> heap)) option" where
  "replace_autocast_with_hop_pass 0 h gm graph_signature = None"
| "replace_autocast_with_hop_pass (Suc fuel) h gm graph_signature =
     (case sequential_split_and_maybe_inline_subgraphs h gm graph_signature of
        Inl e \<Rightarrow> Some (Inl e)
      | Inr (new_gm, new_signature, h1) \<Rightarrow>
          (case descend
                  (\<lambda>h' subgm.
                     map_option (map_sum id (\<lambda>(new_subgm, _, h''). (new_subgm, h'')))
                       (replace_autocast_with_hop_pass fuel h' subgm None))
                  (graph new_gm) h1 new_gm of
             None \<Rightarrow> None
           | Some (Inl e) \<Rightarrow> Some (Inl e)
           | Some (Inr (gm2, h2)) \<Rightarrow>
               Some (thn (lint (graph gm2)) (\<lambda>_. Inr (gm2, new_signature, h2)))))"

subsection \<open>Notions used in the statements\<close>

text \<open>
  An output entry of a signature, read through the store: the name and the declared
  value of its argument, when the entry and its argument are what they should be.
\<close>

definition entry :: "heap \<Rightarrow> addr \<Rightarrow> (string \<times> argument option) option" where
  "entry h s =
     (case spec_arg h s of
        Inl _ \<Rightarrow> None
      | Inr a \<Rightarrow> (case argument_at h a of Inl _ \<Rightarrow> None | Inr x \<Rightarrow> Some x))"

definition declared :: "heap \<Rightarrow> addr \<Rightarrow> argument option option" where
  "declared h a = (case argument_at h a of Inl _ \<Rightarrow> None | Inr x \<Rightarrow> Some (snd x))"

text \<open>
  The objects at the addresses from \<open>k\<close> on refer only to objects at addresses from \<open>k\<close>
  on: with \<open>k\<close> the size of the caller's store, whatever is reached from a new object is
  new.
\<close>

fun obj_refs :: "obj \<Rightarrow> addr list" where
  "obj_refs (ExportGraphSignature specs) = specs"
| "obj_refs (OutputSpec a) = [a]"
| "obj_refs (Argument nm v) = []"

definition fresh_region :: "nat \<Rightarrow> heap \<Rightarrow> bool" where
  "fresh_region k h \<longleftrightarrow>
     (\<forall>s. k \<le> s \<and> s < length h \<longrightarrow> (\<forall>x \<in> set (obj_refs (h ! s)). k \<le> x))"

definition memo_fresh :: "nat \<Rightarrow> (addr \<rightharpoonup> addr) \<Rightarrow> bool" where
  "memo_fresh k memo \<longleftrightarrow> (\<forall>x y. memo x = Some y \<longrightarrow> k \<le> y)"

text \<open>
  The targets of the \<^verbatim>\<open>get_attr\<close> nodes of a graph, in program order; and what a run of
  the pass with no signature makes of a child graph module, when that run returns a
  graph module.
\<close>

definition get_attr_targets :: "node list \<Rightarrow> string list" where
  "get_attr_targets g =
     concat (map (\<lambda>n. case target n of Str t \<Rightarrow> [t] | _ \<Rightarrow> []) (filter (\<lambda>n. op n = GetAttr) g))"

definition rewritten :: "nat \<Rightarrow> heap \<Rightarrow> graph_module \<Rightarrow> graph_module option" where
  "rewritten fuel h sub =
     (case replace_autocast_with_hop_pass fuel h sub None of
        Some (Inr (new_sub, _, _)) \<Rightarrow> Some new_sub
      | _ \<Rightarrow> None)"

text \<open>
  A scope-body segment: the module call \<open>n\<close> of the graph module \<open>gm\<close>, whose target
  \<open>t\<close> names the child \<open>sub_gm\<close>; the markers of the child begin with the Enter
  \<open>enter_node\<close> and end with the Exit \<open>exit_node\<close> that closes it. The graph is a
  graph of the host IR: identities are distinct and every reference points to an earlier
  node. The two markers are used the way the exporter writes them: the Enter takes
  constants only, nothing uses the Exit, and only the Exit uses the Enter.
\<close>

definition scope_body_segment ::
  "graph_module \<Rightarrow> node \<Rightarrow> string \<Rightarrow> graph_module \<Rightarrow> node \<Rightarrow> node \<Rightarrow> bool" where
  "scope_body_segment gm n t sub_gm enter_node exit_node \<longleftrightarrow>
     distinct (map nid (graph gm))
   \<and> defined_before [] (graph gm)
   \<and> find_node (graph gm) (nid n) = Some n
   \<and> op n = CallModule \<and> target n = Str t
   \<and> get_submodule gm t = Inr sub_gm
   \<and> (\<exists>mid. nodes_filter (graph sub_gm) is_autocast_node = enter_node # mid @ [exit_node])
   \<and> is_enter_autocast_node enter_node \<and> is_exit_autocast_node exit_node
   \<and> (\<exists>as. args exit_node = ANode (nid enter_node) # as)
   \<and> node_refs enter_node = []
   \<and> users (graph sub_gm) (nid exit_node) = []
   \<and> list_all (\<lambda>u. nid u = nid exit_node) (users (graph sub_gm) (nid enter_node))"

text \<open>
  The parent graph at the moment the \<^verbatim>\<open>wrap_with_autocast\<close> node is created: the
  \<^verbatim>\<open>get_attr\<close> node of source line 90 stands before the call. The names of its nodes are
  the names in use then.
\<close>

definition graph_with_get_attr :: "graph_module \<Rightarrow> node \<Rightarrow> string \<Rightarrow> node \<Rightarrow> node list" where
  "graph_with_get_attr gm n t enter_node =
     insert_before (graph gm) (nid n) (get_attr_node_of (graph gm) t enter_node)"

text \<open>Every reference to the node \<open>i\<close> redirected to the node \<open>j\<close>.\<close>

abbreviation (input) redirect :: "nat \<Rightarrow> nat \<Rightarrow> node \<Rightarrow> node" where
  "redirect i j \<equiv> subst_node (\<lambda>x. if x = i then j else x)"

text \<open>
  What the loop of source lines 127 to 131 does to one extraction: it takes the name and
  the metadata of the member at its index. The loop visits the users of the node \<open>c\<close>.
\<close>

definition getitem_index :: "node \<Rightarrow> nat" where
  "getitem_index m = (case args m of [_, AInt j] \<Rightarrow> nat j | _ \<Rightarrow> 0)"

definition renamed :: "node list \<Rightarrow> node \<Rightarrow> node" where
  "renamed mns m =
     m\<lparr>name := name (mns ! getitem_index m), meta := meta (mns ! getitem_index m)\<rparr>"

definition rename_users :: "nat \<Rightarrow> node list \<Rightarrow> node \<Rightarrow> node" where
  "rename_users c mns m = (if c \<in> set (node_refs m) then renamed mns m else m)"

subsection \<open>Example graphs\<close>

definition mk_node :: "nat \<Rightarrow> string \<Rightarrow> opcode \<Rightarrow> target \<Rightarrow> argument list \<Rightarrow> node" where
  "mk_node i nm k t as =
     \<lparr>nid = i, name = nm, op = k, target = t, args = as, meta = Map.empty\<rparr>"

text \<open>
  Two regions, one inside the other:
  \<^verbatim>\<open>e1 = enter(); e2 = enter(); x2 = exit(e2); x1 = exit(e1)\<close>.
\<close>

definition nested_nodes :: "node list" where
  "nested_nodes =
     [mk_node 0 ''e1'' CallFunction EnterAutocast [AStr ''cpu''],
      mk_node 1 ''e2'' CallFunction EnterAutocast [AStr ''cuda''],
      mk_node 2 ''x2'' CallFunction ExitAutocast [ANode 1],
      mk_node 3 ''x1'' CallFunction ExitAutocast [ANode 0]]"

text \<open>
  A graph with one top-level region, which holds a second region and defines the two
  values the graph returns:
  \<^verbatim>\<open>e1 = enter(); a = f(x); e2 = enter(); b = g(a); x2 = exit(e2); x1 = exit(e1); return (a, b)\<close>.
\<close>

definition nested_gm :: graph_module where
  "nested_gm = GraphModule
     [mk_node 0 ''x'' Placeholder (Str ''x'') [],
      mk_node 1 ''e1'' CallFunction EnterAutocast [AStr ''cpu''],
      mk_node 2 ''a'' CallFunction (Fn ''f'') [ANode 0],
      mk_node 3 ''e2'' CallFunction EnterAutocast [AStr ''cuda''],
      mk_node 4 ''b'' CallFunction (Fn ''g'') [ANode 2],
      mk_node 5 ''x2'' CallFunction ExitAutocast [ANode 3],
      mk_node 6 ''x1'' CallFunction ExitAutocast [ANode 1],
      mk_node 7 ''output'' Output (Str ''output'') [ATuple [ANode 2, ANode 4]]] []"

text \<open>
  A closed region followed by an Exit that no Enter opens:
  \<^verbatim>\<open>e1 = enter(); x1 = exit(e1); x2 = exit(p); return (p,)\<close>.
\<close>

definition stray_exit_gm :: graph_module where
  "stray_exit_gm = GraphModule
     [mk_node 0 ''p'' Placeholder (Str ''p'') [],
      mk_node 1 ''e1'' CallFunction EnterAutocast [AStr ''cpu''],
      mk_node 2 ''x1'' CallFunction ExitAutocast [ANode 1],
      mk_node 3 ''x2'' CallFunction ExitAutocast [ANode 0],
      mk_node 4 ''output'' Output (Str ''output'') [ATuple [ANode 0]]] []"

text \<open>
  A graph without markers that refers to a child graph module, as the body of a
  higher-order operator is referred to; the child holds a region.
\<close>

definition region_child :: graph_module where
  "region_child = GraphModule
     [mk_node 0 ''e1'' CallFunction EnterAutocast [AStr ''cpu''],
      mk_node 1 ''x1'' CallFunction ExitAutocast [ANode 0]] []"

definition hop_body_gm :: graph_module where
  "hop_body_gm = GraphModule
     [mk_node 0 ''body'' GetAttr (Str ''body'') [],
      mk_node 1 ''output'' Output (Str ''output'') [ATuple []]]
     [(''body'', Some region_child)]"

text \<open>A graph without markers and without children: \<^verbatim>\<open>a = f(x); return (a,)\<close>.\<close>

definition plain_gm :: graph_module where
  "plain_gm = GraphModule
     [mk_node 0 ''x'' Placeholder (Str ''x'') [],
      mk_node 1 ''a'' CallFunction (Fn ''f'') [ANode 0],
      mk_node 2 ''output'' Output (Str ''output'') [ATuple [ANode 1]]] []"

text \<open>
  A graph with one region that returns one value, and a store with the signature of its
  single output \<open>c\<close>: \<^verbatim>\<open>b = enter(); c = g(x); d = exit(b); return (c,)\<close>.
\<close>

definition region_gm :: graph_module where
  "region_gm = GraphModule
     [mk_node 0 ''x'' Placeholder (Str ''x'') [],
      mk_node 1 ''b'' CallFunction EnterAutocast [AStr ''cpu''],
      (mk_node 2 ''c'' CallFunction (Fn ''g'') [ANode 0])\<lparr>meta := map_of [(''val'', MAtom ''f32[2]'')]\<rparr>,
      mk_node 3 ''d'' CallFunction ExitAutocast [ANode 1],
      mk_node 4 ''output'' Output (Str ''output'') [ATuple [ANode 2]]] []"

definition sig_heap :: heap where
  "sig_heap = [Argument ''c'' None, OutputSpec 0, ExportGraphSignature [1]]"

text \<open>A graph that returns \<^verbatim>\<open>(y, None)\<close> and a signature whose first entry has an old name.\<close>

definition two_outputs_graph :: "node list" where
  "two_outputs_graph =
     [mk_node 0 ''x'' Placeholder (Str ''x'') [],
      mk_node 1 ''y'' CallFunction (Fn ''f'') [ANode 0],
      mk_node 2 ''output'' Output (Str ''output'') [ATuple [ANode 1, ANone]]]"

definition two_outputs_heap :: heap where
  "two_outputs_heap = [Argument ''old'' None, OutputSpec 0, Argument ''c'' (Some ANone),
                     OutputSpec 2, ExportGraphSignature [1, 3]]"

text \<open>The signature and the store that a run of the pass returned.\<close>

definition returned_signature ::
  "(error + (graph_module \<times> addr option \<times> heap)) option \<Rightarrow> (addr option \<times> heap) option" where
  "returned_signature r = (case r of Some (Inr (gm, s, h)) \<Rightarrow> Some (s, h) | _ \<Rightarrow> None)"

text \<open>
  What a run of the pass returned, read as the names of the nodes of every child graph
  module.
\<close>

definition returned_children ::
  "(error + (graph_module \<times> addr option \<times> heap)) option \<Rightarrow> (error + (string \<times> string list) list) option" where
  "returned_children r =
     map_option (map_sum id (\<lambda>(gm, _, _).
       map (\<lambda>(k, v). (k, case v of None \<Rightarrow> [] | Some sub \<Rightarrow> map name (graph sub))) (attrs gm))) r"

text \<open>
  A split graph module whose segment \<^verbatim>\<open>submod_1\<close> returns the tuple of two values, each
  read in the parent by an extraction.
\<close>

definition tuple_body :: graph_module where
  "tuple_body = GraphModule
     [mk_node 0 ''x'' Placeholder (Str ''x'') [],
      mk_node 1 ''b'' CallFunction EnterAutocast [AStr ''cpu''],
      (mk_node 2 ''c'' CallFunction (Fn ''g'') [ANode 0])\<lparr>meta := map_of [(''val'', MAtom ''f32[2]'')]\<rparr>,
      (mk_node 3 ''c2'' CallFunction (Fn ''g'') [ANode 2])\<lparr>meta := map_of [(''val'', MAtom ''f32[3]'')]\<rparr>,
      mk_node 4 ''d'' CallFunction ExitAutocast [ANode 1],
      mk_node 5 ''output'' Output (Str ''output'') [ATuple [ANode 2, ANode 3]]] []"

definition tuple_split_gm :: graph_module where
  "tuple_split_gm = GraphModule
     [mk_node 0 ''x'' Placeholder (Str ''x'') [],
      mk_node 6 ''submod_1'' CallModule (Str ''submod_1'') [ANode 0],
      mk_node 7 ''getitem'' CallFunction GetItem [ANode 6, AInt 0],
      mk_node 8 ''getitem_1'' CallFunction GetItem [ANode 6, AInt 1],
      mk_node 5 ''output'' Output (Str ''output'') [ATuple [ANode 7, ANode 8]]]
     [(''submod_1'', Some tuple_body)]"

text \<open>A split graph module whose segment returns one value.\<close>

definition single_body :: graph_module where
  "single_body = GraphModule
     [mk_node 0 ''x'' Placeholder (Str ''x'') [],
      mk_node 1 ''b'' CallFunction EnterAutocast [AStr ''cpu''],
      (mk_node 2 ''c'' CallFunction (Fn ''g'') [ANode 0])\<lparr>meta := map_of [(''val'', MAtom ''f32[2]'')]\<rparr>,
      mk_node 3 ''d'' CallFunction ExitAutocast [ANode 1],
      mk_node 4 ''output'' Output (Str ''output'') [ANode 2]] []"

definition single_split_gm :: graph_module where
  "single_split_gm = GraphModule
     [mk_node 0 ''x'' Placeholder (Str ''x'') [],
      mk_node 5 ''submod_1'' CallModule (Str ''submod_1'') [ANode 0],
      mk_node 4 ''output'' Output (Str ''output'') [ATuple [ANode 5]]]
     [(''submod_1'', Some single_body)]"

text \<open>A segment whose output instruction returns the constant 3.\<close>

definition int_body :: graph_module where
  "int_body = GraphModule
     [mk_node 1 ''b'' CallFunction EnterAutocast [AStr ''cpu''],
      mk_node 3 ''d'' CallFunction ExitAutocast [ANode 1],
      mk_node 4 ''output'' Output (Str ''output'') [AInt 3]] []"

definition int_split_gm :: graph_module where
  "int_split_gm = GraphModule
     [mk_node 5 ''submod_1'' CallModule (Str ''submod_1'') []]
     [(''submod_1'', Some int_body)]"

text \<open>A segment that holds the two markers only, and has no output instruction.\<close>

definition void_body :: graph_module where
  "void_body = GraphModule
     [mk_node 1 ''e1'' CallFunction EnterAutocast [AStr ''cpu''],
      mk_node 2 ''x1'' CallFunction ExitAutocast [ANode 1]] []"

definition void_split_gm :: graph_module where
  "void_split_gm = GraphModule
     [mk_node 0 ''p'' Placeholder (Str ''p'') [],
      mk_node 5 ''submod_1'' CallModule (Str ''submod_1'') [],
      mk_node 4 ''output'' Output (Str ''output'') [ATuple [ANode 0]]]
     [(''submod_1'', Some void_body)]"

text \<open>
  The segment of the scenario \<^verbatim>\<open>a = f(x); b = enter(); c = g(a); d = exit(b); e = h(d)\<close>:
  the value the segment returns is the value of the Exit.
\<close>

definition scenario_body :: graph_module where
  "scenario_body = GraphModule
     [mk_node 1 ''a'' Placeholder (Str ''a'') [],
      mk_node 2 ''b'' CallFunction EnterAutocast [AStr ''cpu''],
      (mk_node 3 ''c'' CallFunction (Fn ''g'') [ANode 1])\<lparr>meta := map_of [(''val'', MAtom ''f32[2]'')]\<rparr>,
      mk_node 4 ''d'' CallFunction ExitAutocast [ANode 2],
      mk_node 8 ''output'' Output (Str ''output'') [ANode 4]] []"

definition scenario_split_gm :: graph_module where
  "scenario_split_gm = GraphModule
     [mk_node 0 ''x'' Placeholder (Str ''x'') [],
      mk_node 1 ''a'' CallFunction (Fn ''f'') [ANode 0],
      mk_node 7 ''submod_1'' CallModule (Str ''submod_1'') [ANode 1],
      mk_node 5 ''e'' CallFunction (Fn ''h'') [ANode 7],
      mk_node 6 ''output'' Output (Str ''output'') [ATuple [ANode 5]]]
     [(''submod_1'', Some scenario_body)]"

text \<open>The segment that returns one value, called from a graph whose input is named \<open>c\<close> too.\<close>

definition clash_single_gm :: graph_module where
  "clash_single_gm = GraphModule
     [mk_node 0 ''c'' Placeholder (Str ''c'') [],
      mk_node 5 ''submod_1'' CallModule (Str ''submod_1'') [ANode 0],
      mk_node 4 ''output'' Output (Str ''output'') [ATuple [ANode 5]]]
     [(''submod_1'', Some single_body)]"

text \<open>A segment that returns a tuple with the value of the Exit in it.\<close>

definition exit_tuple_body :: graph_module where
  "exit_tuple_body = GraphModule
     [mk_node 0 ''x'' Placeholder (Str ''x'') [],
      mk_node 1 ''b'' CallFunction EnterAutocast [AStr ''cpu''],
      (mk_node 2 ''c'' CallFunction (Fn ''g'') [ANode 0])\<lparr>meta := map_of [(''val'', MAtom ''f32[2]'')]\<rparr>,
      (mk_node 4 ''d'' CallFunction ExitAutocast [ANode 1])\<lparr>meta := map_of [(''val'', MAtom ''None'')]\<rparr>,
      mk_node 5 ''output'' Output (Str ''output'') [ATuple [ANode 2, ANode 4]]] []"

definition exit_tuple_gm :: graph_module where
  "exit_tuple_gm = GraphModule
     [mk_node 0 ''x'' Placeholder (Str ''x'') [],
      mk_node 6 ''submod_1'' CallModule (Str ''submod_1'') [ANode 0],
      mk_node 7 ''getitem'' CallFunction GetItem [ANode 6, AInt 0],
      mk_node 8 ''getitem_1'' CallFunction GetItem [ANode 6, AInt 1],
      mk_node 5 ''output'' Output (Str ''output'') [ATuple [ANode 7, ANode 8]]]
     [(''submod_1'', Some exit_tuple_body)]"

text \<open>The segment that returns a tuple, called from a graph whose input is named \<open>c\<close> too.\<close>

definition clash_tuple_gm :: graph_module where
  "clash_tuple_gm = GraphModule
     [mk_node 0 ''c'' Placeholder (Str ''c'') [],
      mk_node 6 ''submod_1'' CallModule (Str ''submod_1'') [ANode 0],
      mk_node 7 ''getitem'' CallFunction GetItem [ANode 6, AInt 0],
      mk_node 8 ''getitem_1'' CallFunction GetItem [ANode 6, AInt 1],
      mk_node 5 ''output'' Output (Str ''output'') [ATuple [ANode 7, ANode 8]]]
     [(''submod_1'', Some tuple_body)]"

text \<open>What a replacement returned, read as the names of the nodes of the parent graph.\<close>

definition outlined_names :: "error + (graph_module \<times> rename list) \<Rightarrow> error + string list" where
  "outlined_names r = map_sum id (\<lambda>(gm, _). map name (graph gm)) r"

section \<open>Properties\<close>

lemma thn_simps [simp]:
  "thn (Inl e) f = Inl e"
  "thn (Inr x) f = f x"
  by (simp_all add: thn_def)

text \<open>
  C2. On a well-nested sequence the callback should answer true at the outer-most Enter
  and at the instruction after the outer-most Exit, and false at every nested Enter and
  Exit. On the nested sequence \<open>nested_nodes\<close> it instead fails its own assertion at the
  inner Exit: the inner Enter was never pushed, so the popped node is the outer Enter.
\<close>

theorem node_call_back_nested_fails:
  "split_map node_call_back tracker_init 0 nested_nodes = Inl AssertionError"
  by (simp add: nested_nodes_def mk_node_def tracker_init_def node_call_back_def
      is_enter_autocast_node_def is_exit_autocast_node_def)

lemma split_autocast_nested: "split_autocast nested_gm = Inl AssertionError"
  by (simp add: split_autocast_def sequential_split_def nested_gm_def mk_node_def
      tracker_init_def node_call_back_def is_enter_autocast_node_def is_exit_autocast_node_def)

lemma need_replacing_nested: "list_ex is_autocast_node (graph nested_gm)"
  by (simp add: nested_gm_def mk_node_def is_autocast_node_def)

text \<open>
  C1. A graph with exactly one top-level region whose body returns a tuple of two values
  should be rewritten into a graph with one \<^verbatim>\<open>wrap_with_autocast\<close> node that evaluates
  to the same results. On \<open>nested_gm\<close>, whose only top-level region holds a nested
  region, the pass returns no graph at all: it stops with the assertion failure of the
  boundary tracker.
\<close>

theorem pass_nested_region_fails:
  "replace_autocast_with_hop_pass (Suc fuel) h nested_gm None = Some (Inl AssertionError)"
  using need_replacing_nested
  by (simp add: sequential_split_and_maybe_inline_subgraphs_def split_autocast_nested)

text \<open>
  C3. One application of the split-and-replace step should outline the outer region of a
  graph with a nested region and leave the inner markers in the body. On \<open>nested_gm\<close>
  the step outlines nothing: it fails while the graph is split.
\<close>

theorem split_and_replace_nested_fails:
  "sequential_split_and_maybe_inline_subgraphs h nested_gm graph_signature = Inl AssertionError"
  using need_replacing_nested
  by (simp add: sequential_split_and_maybe_inline_subgraphs_def split_autocast_nested)

text \<open>
  The callback at an Exit. While \<open>first_node_after_outer_most_exit\<close> is clear, an Exit
  that finds no Enter on the stack, or another Enter than the one it names, ends the
  run. While it is set, the callback answers true for any node, an Exit included, and
  returns before the checks of an Exit are reached.
\<close>

lemma node_call_back_checks_exit:
  assumes "\<not> first_node_after_outer_most_exit s" "is_exit_autocast_node n"
    and "enter_autocast_node_stack s = []
       \<or> (\<forall>as. args n \<noteq> ANode (nid (last (enter_autocast_node_stack s))) # as)"
  shows "node_call_back s n = Inl AssertionError \<or> node_call_back s n = Inl IndexError"
  using assms
  by (cases "args n")
     (auto simp: node_call_back_def is_exit_autocast_node_def is_enter_autocast_node_def Let_def)

lemma node_call_back_after_exit:
  assumes "first_node_after_outer_most_exit s" "enter_autocast_node_stack s = []"
  shows "\<exists>s'. node_call_back s n = Inr (True, s')"
  using assms by (simp add: node_call_back_def Let_def)

text \<open>
  C4. An Exit that occurs while no Enter is open should end the pass with the failure of
  the stack discipline. In \<open>stray_exit_gm\<close> the Exit \<open>x2\<close> follows the outer-most Exit
  \<open>x1\<close> directly, and what it names is no Enter. The callback meets \<open>x2\<close> while
  \<open>first_node_after_outer_most_exit\<close> is set, so it starts a segment there and does not
  look at it: the traversal of the boundary tracker ends without a failure, with a
  segment number for every instruction. The same Exit met anywhere else is refused: in
  the graph without the region, the traversal ends with the assertion failure.
\<close>

theorem tracker_accepts_stray_exit:
  "split_map node_call_back tracker_init 0 (graph stray_exit_gm) = Inr [0, 1, 1, 2, 2]
   \<and> split_map node_call_back tracker_init 0
         (filter (\<lambda>n. name n \<notin> set [''e1'', ''x1'']) (graph stray_exit_gm))
       = Inl AssertionError"
  by (simp add: stray_exit_gm_def mk_node_def tracker_init_def node_call_back_def
      is_enter_autocast_node_def is_exit_autocast_node_def)

subsection \<open>The pass on a graph without markers\<close>

lemma descend_graph:
  "descend rec ns h gm = Some (Inr (gm', h')) \<Longrightarrow> graph gm' = graph gm"
proof (induction ns arbitrary: h gm)
  case Nil
  then show ?case by simp
next
  case (Cons n ns)
  then show ?case
    by (auto split: if_splits target.splits option.splits sum.splits prod.splits)
qed

lemma descend_heap:
  assumes "\<And>h0 sub r. rec h0 sub = Some (Inr r) \<Longrightarrow> snd r = h0"
  shows "descend rec ns h gm = Some (Inr (gm', h')) \<Longrightarrow> h' = h"
proof (induction ns arbitrary: h gm)
  case Nil
  then show ?case by simp
next
  case (Cons n ns)
  then show ?case using assms
    by (fastforce split: if_splits target.splits option.splits sum.splits prod.splits)
qed

lemma descend_no_get_attr:
  "list_all (\<lambda>n. op n \<noteq> GetAttr) ns \<Longrightarrow> descend rec ns h gm = Some (Inr (gm, h))"
  by (induction ns) auto

lemma split_and_replace_None:
  "sequential_split_and_maybe_inline_subgraphs h gm None = Inr (gm', s, h') \<Longrightarrow> s = None \<and> h' = h"
  by (auto simp: sequential_split_and_maybe_inline_subgraphs_def thn_def Let_def
      split: if_splits sum.splits prod.splits)

lemma no_markers_step:
  "\<not> list_ex is_autocast_node (graph gm) \<Longrightarrow>
   sequential_split_and_maybe_inline_subgraphs h gm graph_signature = Inr (gm, graph_signature, h)"
  by (simp add: sequential_split_and_maybe_inline_subgraphs_def)

text \<open>What a run that returns went through.\<close>

lemma pass_Suc_returns:
  assumes "replace_autocast_with_hop_pass (Suc k) h gm graph_signature = Some (Inr (gm', s', h'))"
  obtains new_gm h1 where
    "sequential_split_and_maybe_inline_subgraphs h gm graph_signature = Inr (new_gm, s', h1)"
    "descend (\<lambda>h' subgm. map_option (map_sum id (\<lambda>(new_subgm, _, h''). (new_subgm, h'')))
                       (replace_autocast_with_hop_pass k h' subgm None))
                  (graph new_gm) h1 new_gm = Some (Inr (gm', h'))"
proof (cases "sequential_split_and_maybe_inline_subgraphs h gm graph_signature")
  case (Inl e)
  with assms show ?thesis by simp
next
  case (Inr res)
  obtain new_gm new_sig h1 where res: "res = (new_gm, new_sig, h1)" by (cases res)
  let ?d = "descend (\<lambda>h' subgm. map_option (map_sum id (\<lambda>(new_subgm, _, h''). (new_subgm, h'')))
                       (replace_autocast_with_hop_pass k h' subgm None))
                  (graph new_gm) h1 new_gm"
  from assms Inr res have a: "(case ?d of None \<Rightarrow> None | Some (Inl e) \<Rightarrow> Some (Inl e)
           | Some (Inr (gm2, h2)) \<Rightarrow> Some (thn (lint (graph gm2)) (\<lambda>_. Inr (gm2, new_sig, h2))))
         = Some (Inr (gm', s', h'))"
    by simp
  show ?thesis
  proof (cases ?d)
    case None
    with a show ?thesis by simp
  next
    case (Some d)
    show ?thesis
    proof (cases d)
      case (Inl e)
      with a Some show ?thesis by simp
    next
      case (Inr p)
      obtain gm2 h2 where p: "p = (gm2, h2)" by (cases p)
      from a Some Inr p have "thn (lint (graph gm2)) (\<lambda>_. Inr (gm2, new_sig, h2)) = Inr (gm', s', h')"
        by simp
      then have "gm2 = gm'" "new_sig = s'" "h2 = h'"
        by (auto simp: thn_def split: sum.splits)
      with Some Inr p res \<open>sequential_split_and_maybe_inline_subgraphs h gm graph_signature = Inr res\<close>
      show ?thesis by (intro that) simp_all
    qed
  qed
qed

text \<open>A run without a signature leaves the store alone.\<close>

lemma pass_None:
  "replace_autocast_with_hop_pass fuel h gm None = Some (Inr (gm', s, h')) \<Longrightarrow> s = None \<and> h' = h"
proof (induction fuel arbitrary: h gm gm' s h')
  case 0
  then show ?case by simp
next
  case (Suc fuel)
  from Suc.prems obtain new_gm h1 where
    a: "sequential_split_and_maybe_inline_subgraphs h gm None = Inr (new_gm, s, h1)"
    and b: "descend (\<lambda>h' subgm. map_option (map_sum id (\<lambda>(new_subgm, _, h''). (new_subgm, h'')))
                       (replace_autocast_with_hop_pass fuel h' subgm None))
                  (graph new_gm) h1 new_gm = Some (Inr (gm', h'))"
    by (rule pass_Suc_returns)
  from a have a': "s = None" "h1 = h" using split_and_replace_None by blast+
  have "h' = h1"
  proof (rule descend_heap[OF _ b])
    fix h0 sub r
    assume "map_option (map_sum id (\<lambda>(new_subgm, _, h''). (new_subgm, h'')))
             (replace_autocast_with_hop_pass fuel h0 sub None) = Some (Inr r)"
    then obtain g0 s0 h0' where
      "replace_autocast_with_hop_pass fuel h0 sub None = Some (Inr (g0, s0, h0'))" "r = (g0, h0')"
      by (auto simp: map_option_case map_sum_def split: option.splits sum.splits prod.splits)
    with Suc.IH show "snd r = h0" by auto
  qed
  with a' show ?case by simp
qed

text \<open>The descent into the children keeps the top-level graph and the store.\<close>

lemma descend_pass:
  assumes "descend (\<lambda>h' subgm. map_option (map_sum id (\<lambda>(new_subgm, _, h''). (new_subgm, h'')))
                       (replace_autocast_with_hop_pass k h' subgm None))
                  ns h gm = Some (Inr (gm2, h2))"
  shows "graph gm2 = graph gm \<and> h2 = h"
proof
  from assms show "graph gm2 = graph gm" by (rule descend_graph)
  show "h2 = h"
  proof (rule descend_heap[OF _ assms])
    fix h0 sub r
    assume "map_option (map_sum id (\<lambda>(new_subgm, _, h''). (new_subgm, h'')))
             (replace_autocast_with_hop_pass k h0 sub None) = Some (Inr r)"
    then obtain g0 s0 h0' where
      "replace_autocast_with_hop_pass k h0 sub None = Some (Inr (g0, s0, h0'))" "r = (g0, h0')"
      by (auto simp: map_option_case map_sum_def split: option.splits sum.splits prod.splits)
    then show "snd r = h0" using pass_None by auto
  qed
qed

text \<open>
  The descent into children that are named once: every child named by a \<^verbatim>\<open>get_attr\<close>
  node is replaced by what the pass makes of it, and the rest of the module stays.
\<close>

lemma setattr_present:
  "t \<in> fst ` set as \<Longrightarrow> setattr as t x = map (\<lambda>(k, v). (k, if k = t then x else v)) as"
  by (auto simp: setattr_def)

lemma rewritten_Some:
  assumes "rewritten fuel h sub = Some new_sub"
  shows "replace_autocast_with_hop_pass fuel h sub None = Some (Inr (new_sub, None, h))"
proof -
  from assms obtain s' h' where
    r: "replace_autocast_with_hop_pass fuel h sub None = Some (Inr (new_sub, s', h'))"
    by (auto simp: rewritten_def split: option.splits sum.splits prod.splits)
  from pass_None[OF r] r show ?thesis by simp
qed

lemma descend_children:
  assumes "distinct (map fst as)" "distinct (get_attr_targets ns)"
    and "\<forall>n \<in> set ns. op n = GetAttr \<longrightarrow> (\<exists>t. target n = Str t \<and> t \<in> fst ` set as)"
    and "\<forall>t \<in> set (get_attr_targets ns). \<forall>sub.
           map_of as t = Some (Some sub) \<longrightarrow> rewritten fuel h sub \<noteq> None"
  shows "descend (\<lambda>h' subgm. map_option (map_sum id (\<lambda>(new_subgm, _, h''). (new_subgm, h'')))
                       (replace_autocast_with_hop_pass fuel h' subgm None))
           ns h (GraphModule g as)
       = Some (Inr (GraphModule g
            (map (\<lambda>(k, v). (k, if k \<in> set (get_attr_targets ns)
                                then Option.bind v (rewritten fuel h) else v)) as), h))"
  using assms
proof (induction ns arbitrary: as)
  case Nil
  then show ?case by (simp add: get_attr_targets_def)
next
  case (Cons n ns)
  let ?rec = "\<lambda>h' subgm. map_option (map_sum id (\<lambda>(new_subgm, _, h''). (new_subgm, h'')))
                       (replace_autocast_with_hop_pass fuel h' subgm None)"
  show ?case
  proof (cases "op n = GetAttr")
    case False
    then have t: "get_attr_targets (n # ns) = get_attr_targets ns"
      by (simp add: get_attr_targets_def)
    from Cons.prems have "descend ?rec ns h (GraphModule g as)
       = Some (Inr (GraphModule g
            (map (\<lambda>(k, v). (k, if k \<in> set (get_attr_targets ns)
                                then Option.bind v (rewritten fuel h) else v)) as), h))"
      by (intro Cons.IH) (simp_all add: t)
    moreover have "descend ?rec (n # ns) h (GraphModule g as) = descend ?rec ns h (GraphModule g as)"
      using False by (simp only: descend.simps simp_thms if_False)
    ultimately show ?thesis by (simp only: t)
  next
    case True
    with Cons.prems(3) obtain t where t: "target n = Str t" "t \<in> fst ` set as" by auto
    from True t have ts: "get_attr_targets (n # ns) = t # get_attr_targets ns"
      by (simp add: get_attr_targets_def)
    with Cons.prems(2) have tn: "t \<notin> set (get_attr_targets ns)"
      and dt: "distinct (get_attr_targets ns)" by simp_all
    from t(2) obtain v where v: "map_of as t = Some v"
      by (metis map_of_eq_None_iff not_Some_eq)
    from Cons.prems(1) v have only: "\<And>k v'. (k, v') \<in> set as \<Longrightarrow> k = t \<Longrightarrow> v' = v"
      by (metis map_of_is_SomeI option.inject)
    show ?thesis
    proof (cases v)
      case None
      from Cons.prems dt have "descend ?rec ns h (GraphModule g as)
         = Some (Inr (GraphModule g
              (map (\<lambda>(k, v). (k, if k \<in> set (get_attr_targets ns)
                                  then Option.bind v (rewritten fuel h) else v)) as), h))"
        by (intro Cons.IH) (simp_all add: ts)
      moreover have "map (\<lambda>(k, v). (k, if k \<in> set (get_attr_targets ns)
                                  then Option.bind v (rewritten fuel h) else v)) as
           = map (\<lambda>(k, v). (k, if k \<in> set (get_attr_targets (n # ns))
                                  then Option.bind v (rewritten fuel h) else v)) as"
      proof (rule map_cong[OF refl])
        fix x assume x: "x \<in> set as"
        obtain k v' where kv: "x = (k, v')" by (cases x)
        with x only None have "k = t \<Longrightarrow> v' = None" by simp
        with tn kv show "(case x of (k, v) \<Rightarrow> (k, if k \<in> set (get_attr_targets ns)
                                  then Option.bind v (rewritten fuel h) else v))
            = (case x of (k, v) \<Rightarrow> (k, if k \<in> set (get_attr_targets (n # ns))
                                  then Option.bind v (rewritten fuel h) else v))"
          by (auto simp: ts)
      qed
      moreover have "descend ?rec (n # ns) h (GraphModule g as)
          = descend ?rec ns h (GraphModule g as)"
        using True t(1) v None
        by (simp only: descend.simps simp_thms if_True target.case graph_module.sel option.case)
      ultimately show ?thesis by (simp only:)
    next
      case (Some sub)
      with Cons.prems(4) v obtain new_sub where ns: "rewritten fuel h sub = Some new_sub"
        by (auto simp: ts)
      from rewritten_Some[OF ns]
      have rec: "?rec h sub = Some (Inr (new_sub, h))" by simp
      let ?as' = "setattr as t (Some new_sub)"
      have as': "?as' = map (\<lambda>(k, v). (k, if k = t then Some new_sub else v)) as"
        using t(2) by (rule setattr_present)
      have keys: "map fst ?as' = map fst as"
        by (simp add: as' comp_def case_prod_beta)
      have other: "\<And>t'. t' \<noteq> t \<Longrightarrow> map_of ?as' t' = map_of as t'"
        unfolding as' by (induction as) auto
      have "descend ?rec ns h (GraphModule g ?as')
         = Some (Inr (GraphModule g
              (map (\<lambda>(k, v). (k, if k \<in> set (get_attr_targets ns)
                                  then Option.bind v (rewritten fuel h) else v)) ?as'), h))"
      proof (rule Cons.IH)
        show "distinct (map fst ?as')" using Cons.prems(1) by (simp add: keys)
        show "distinct (get_attr_targets ns)" by (rule dt)
        show "\<forall>n \<in> set ns. op n = GetAttr \<longrightarrow> (\<exists>t. target n = Str t \<and> t \<in> fst ` set ?as')"
        proof -
          have "fst ` set ?as' = fst ` set as" using keys by (metis list.set_map)
          with Cons.prems(3) show ?thesis by simp
        qed
        show "\<forall>t' \<in> set (get_attr_targets ns). \<forall>sub.
           map_of ?as' t' = Some (Some sub) \<longrightarrow> rewritten fuel h sub \<noteq> None"
        proof (intro ballI allI impI)
          fix t' sub' assume t': "t' \<in> set (get_attr_targets ns)"
            and m: "map_of ?as' t' = Some (Some sub')"
          from t' tn have "t' \<noteq> t" by auto
          with m other have "map_of as t' = Some (Some sub')" by simp
          with Cons.prems(4) t' show "rewritten fuel h sub' \<noteq> None" by (simp add: ts)
        qed
      qed
      moreover have "map (\<lambda>(k, v). (k, if k \<in> set (get_attr_targets ns)
                                  then Option.bind v (rewritten fuel h) else v)) ?as'
           = map (\<lambda>(k, v). (k, if k \<in> set (get_attr_targets (n # ns))
                                  then Option.bind v (rewritten fuel h) else v)) as"
        unfolding as' map_map
      proof (rule map_cong[OF refl])
        fix x assume x: "x \<in> set as"
        obtain k v' where kv: "x = (k, v')" by (cases x)
        with x only Some have "k = t \<Longrightarrow> v' = Some sub" by simp
        with tn kv ns show "((\<lambda>(k, v). (k, if k \<in> set (get_attr_targets ns)
                                  then Option.bind v (rewritten fuel h) else v))
              \<circ> (\<lambda>(k, v). (k, if k = t then Some new_sub else v))) x
            = (case x of (k, v) \<Rightarrow> (k, if k \<in> set (get_attr_targets (n # ns))
                                  then Option.bind v (rewritten fuel h) else v))"
          by (auto simp: ts)
      qed
      moreover have "descend ?rec (n # ns) h (GraphModule g as)
          = descend ?rec ns h (GraphModule g ?as')"
        using True t(1) v Some rec
        by (simp only: descend.simps simp_thms if_True target.case graph_module.sel option.case
            sum.case prod.case)
      ultimately show ?thesis by (simp only:)
    qed
  qed
qed

text \<open>
  C8 (as stated). A graph without a marker in its top-level node list should come back
  unchanged, with no splitting, outlining or replacement. \<open>hop_body_gm\<close> has no
  top-level marker, but the pass descends into the child \<open>body\<close> and outlines the
  region it holds: the child comes back rewritten.
\<close>

theorem pass_rewrites_children_counterexample:
  "\<not> list_ex is_autocast_node (graph hop_body_gm)
   \<and> replace_autocast_with_hop_pass 3 [] hop_body_gm None \<noteq> Some (Inr (hop_body_gm, None, []))
   \<and> returned_children (replace_autocast_with_hop_pass 3 [] hop_body_gm None)
       = Some (Inr [(''body'', [''submod_2''])])"
proof (intro conjI)
  show "\<not> list_ex is_autocast_node (graph hop_body_gm)"
    by code_simp
  show after: "returned_children (replace_autocast_with_hop_pass 3 [] hop_body_gm None)
       = Some (Inr [(''body'', [''submod_2''])])"
    by code_simp
  have before: "returned_children (Some (Inr (hop_body_gm, None, [])))
       = Some (Inr [(''body'', [''e1'', ''x1''])])"
    by code_simp
  show "replace_autocast_with_hop_pass 3 [] hop_body_gm None \<noteq> Some (Inr (hop_body_gm, None, []))"
  proof
    assume "replace_autocast_with_hop_pass 3 [] hop_body_gm None = Some (Inr (hop_body_gm, None, []))"
    with after before show False by simp
  qed
qed

text \<open>
  C8 (amended). For a graph without a marker in its top-level node list, the
  split-and-replace step returns the graph module, the signature and the store as they
  are. The pass then descends into the children. When the attributes are a dictionary, no
  two \<^verbatim>\<open>get_attr\<close> nodes name the same attribute, and the run of the pass on every child
  graph module that a \<^verbatim>\<open>get_attr\<close> node names returns a graph module, the pass returns
  (if the final validation accepts the graph) the same top-level graph, signature and
  store, with every such child replaced by what the pass made of it and every other
  attribute as it was. Whatever the pass returns has the same top-level graph, signature
  and store; and when the graph has no \<^verbatim>\<open>get_attr\<close> node and passes the final
  validation, the pass returns the graph module unchanged.
\<close>

theorem pass_without_markers:
  assumes "\<not> list_ex is_autocast_node (graph gm)"
  shows "sequential_split_and_maybe_inline_subgraphs h gm graph_signature
           = Inr (gm, graph_signature, h)
    \<and> (\<forall>fuel.
          distinct (map fst (attrs gm)) \<and> distinct (get_attr_targets (graph gm))
        \<and> (\<forall>n \<in> set (graph gm). op n = GetAttr \<longrightarrow>
              (\<exists>t. target n = Str t \<and> t \<in> fst ` set (attrs gm)))
        \<and> (\<forall>t \<in> set (get_attr_targets (graph gm)). \<forall>sub.
              map_of (attrs gm) t = Some (Some sub) \<longrightarrow> rewritten fuel h sub \<noteq> None) \<longrightarrow>
          replace_autocast_with_hop_pass (Suc fuel) h gm graph_signature
            = Some (thn (lint (graph gm)) (\<lambda>_.
                Inr (GraphModule (graph gm)
                       (map (\<lambda>(k, v). (k, if k \<in> set (get_attr_targets (graph gm))
                                           then Option.bind v (rewritten fuel h) else v))
                          (attrs gm)),
                     graph_signature, h))))
    \<and> (\<forall>fuel gm' s' h'.
          replace_autocast_with_hop_pass fuel h gm graph_signature = Some (Inr (gm', s', h')) \<longrightarrow>
          graph gm' = graph gm \<and> s' = graph_signature \<and> h' = h)
    \<and> (list_all (\<lambda>n. op n \<noteq> GetAttr) (graph gm) \<and> lint (graph gm) = Inr () \<longrightarrow>
          (\<forall>fuel. replace_autocast_with_hop_pass (Suc fuel) h gm graph_signature
             = Some (Inr (gm, graph_signature, h))))"
proof (intro conjI allI impI)
  show step: "sequential_split_and_maybe_inline_subgraphs h gm graph_signature
                = Inr (gm, graph_signature, h)"
    using assms by (rule no_markers_step)
  {
    fix fuel
    assume a: "distinct (map fst (attrs gm)) \<and> distinct (get_attr_targets (graph gm))
        \<and> (\<forall>n \<in> set (graph gm). op n = GetAttr \<longrightarrow>
              (\<exists>t. target n = Str t \<and> t \<in> fst ` set (attrs gm)))
        \<and> (\<forall>t \<in> set (get_attr_targets (graph gm)). \<forall>sub.
              map_of (attrs gm) t = Some (Some sub) \<longrightarrow> rewritten fuel h sub \<noteq> None)"
    have "descend (\<lambda>h' subgm. map_option (map_sum id (\<lambda>(new_subgm, _, h''). (new_subgm, h'')))
                       (replace_autocast_with_hop_pass fuel h' subgm None))
           (graph gm) h (GraphModule (graph gm) (attrs gm))
       = Some (Inr (GraphModule (graph gm)
            (map (\<lambda>(k, v). (k, if k \<in> set (get_attr_targets (graph gm))
                                then Option.bind v (rewritten fuel h) else v)) (attrs gm)), h))"
      using a by (intro descend_children) simp_all
    then show "replace_autocast_with_hop_pass (Suc fuel) h gm graph_signature
            = Some (thn (lint (graph gm)) (\<lambda>_.
                Inr (GraphModule (graph gm)
                       (map (\<lambda>(k, v). (k, if k \<in> set (get_attr_targets (graph gm))
                                           then Option.bind v (rewritten fuel h) else v))
                          (attrs gm)),
                     graph_signature, h)))"
      using step by simp
  }
  {
    fix fuel gm' s' h'
    assume r: "replace_autocast_with_hop_pass fuel h gm graph_signature = Some (Inr (gm', s', h'))"
    then obtain k where k: "fuel = Suc k" by (cases fuel) auto
    from r[unfolded k] obtain new_gm h1 where
      a: "sequential_split_and_maybe_inline_subgraphs h gm graph_signature = Inr (new_gm, s', h1)"
      and b: "descend (\<lambda>h' subgm. map_option (map_sum id (\<lambda>(new_subgm, _, h''). (new_subgm, h'')))
                       (replace_autocast_with_hop_pass k h' subgm None))
                  (graph new_gm) h1 new_gm = Some (Inr (gm', h'))"
      by (rule pass_Suc_returns)
    from a step have c: "new_gm = gm" "s' = graph_signature" "h1 = h" by simp_all
    from descend_pass[OF b] c
    show "graph gm' = graph gm" "s' = graph_signature" "h' = h" by simp_all
  }
  {
    fix fuel
    assume "list_all (\<lambda>n. op n \<noteq> GetAttr) (graph gm) \<and> lint (graph gm) = Inr ()"
    then show "replace_autocast_with_hop_pass (Suc fuel) h gm graph_signature
             = Some (Inr (gm, graph_signature, h))"
      using step by (simp add: descend_no_get_attr)
  }
qed

theorem pass_without_markers_witness:
  "\<not> list_ex is_autocast_node (graph plain_gm)
   \<and> list_all (\<lambda>n. op n \<noteq> GetAttr) (graph plain_gm)
   \<and> lint (graph plain_gm) = Inr ()
   \<and> sequential_split_and_maybe_inline_subgraphs [] plain_gm None = Inr (plain_gm, None, [])
   \<and> replace_autocast_with_hop_pass 1 [] plain_gm None = Some (Inr (plain_gm, None, []))
   \<and> \<not> list_ex is_autocast_node (graph hop_body_gm)
   \<and> get_attr_targets (graph hop_body_gm) = [''body'']
   \<and> map_option (\<lambda>sub. map name (graph sub)) (rewritten 2 [] region_child) = Some [''submod_2'']
   \<and> replace_autocast_with_hop_pass 3 [] hop_body_gm None
       = Some (Inr (GraphModule (graph hop_body_gm) [(''body'', rewritten 2 [] region_child)],
                    None, []))"
proof -
  have a: "\<not> list_ex is_autocast_node (graph plain_gm)"
    by (simp add: plain_gm_def mk_node_def is_autocast_node_def)
  have b: "list_all (\<lambda>n. op n \<noteq> GetAttr) (graph plain_gm)"
    by (simp add: plain_gm_def mk_node_def)
  have c: "lint (graph plain_gm) = Inr ()"
    by (simp add: plain_gm_def mk_node_def lint_def node_refs_def)
  from pass_without_markers[OF a, of "[]" None] a b c
  have plain: "sequential_split_and_maybe_inline_subgraphs [] plain_gm None = Inr (plain_gm, None, [])"
    "replace_autocast_with_hop_pass 1 [] plain_gm None = Some (Inr (plain_gm, None, []))"
    by (metis One_nat_def)+
  have d: "\<not> list_ex is_autocast_node (graph hop_body_gm)"
    by (simp add: hop_body_gm_def mk_node_def is_autocast_node_def)
  have e: "get_attr_targets (graph hop_body_gm) = [''body'']"
    by (simp add: hop_body_gm_def mk_node_def get_attr_targets_def)
  have f: "map_option (\<lambda>sub. map name (graph sub)) (rewritten 2 [] region_child) = Some [''submod_2'']"
    by code_simp
  then have f': "rewritten 2 [] region_child \<noteq> None" by auto
  have g: "lint (graph hop_body_gm) = Inr ()"
    by (simp add: hop_body_gm_def mk_node_def lint_def node_refs_def)
  have hyp: "distinct (map fst (attrs hop_body_gm)) \<and> distinct (get_attr_targets (graph hop_body_gm))
        \<and> (\<forall>n \<in> set (graph hop_body_gm). op n = GetAttr \<longrightarrow>
              (\<exists>t. target n = Str t \<and> t \<in> fst ` set (attrs hop_body_gm)))
        \<and> (\<forall>t \<in> set (get_attr_targets (graph hop_body_gm)). \<forall>sub.
              map_of (attrs hop_body_gm) t = Some (Some sub) \<longrightarrow> rewritten 2 [] sub \<noteq> None)"
    using f' by (simp add: e) (simp add: hop_body_gm_def mk_node_def)
  from pass_without_markers[OF d, of "[]" None] hyp
  have "replace_autocast_with_hop_pass (Suc 2) [] hop_body_gm None
            = Some (thn (lint (graph hop_body_gm)) (\<lambda>_.
                Inr (GraphModule (graph hop_body_gm)
                       (map (\<lambda>(k, v). (k, if k \<in> set (get_attr_targets (graph hop_body_gm))
                                           then Option.bind v (rewritten 2 []) else v))
                          (attrs hop_body_gm)),
                     None, [])))"
    by blast
  then have child: "replace_autocast_with_hop_pass 3 [] hop_body_gm None
       = Some (Inr (GraphModule (graph hop_body_gm) [(''body'', rewritten 2 [] region_child)],
                    None, []))"
    by (simp add: g e numeral_3_eq_3) (simp add: hop_body_gm_def)
  show ?thesis
    by (intro conjI) (rule a, rule b, rule c, rule plain(1), rule plain(2), rule d, rule e, rule f, rule child)
qed

subsection \<open>Reconciliation of the signature\<close>

lemma spec_arg_update:
  "argument_at h a = Inr x \<Longrightarrow> spec_arg (h[a := Argument nm v]) s = spec_arg h s"
  by (cases "s = a") (auto simp: spec_arg_def argument_at_def split: if_splits obj.splits)

lemma output_specs_update:
  "argument_at h a = Inr x \<Longrightarrow> output_specs (h[a := Argument nm v]) r = output_specs h r"
  by (cases "r = a") (auto simp: output_specs_def argument_at_def split: if_splits obj.splits)

lemma argument_at_update_same:
  "argument_at h a = Inr x \<Longrightarrow> argument_at (h[a := Argument nm v]) a = Inr (nm, v)"
  by (auto simp: argument_at_def split: if_splits obj.splits)

lemma argument_at_update_other:
  "b \<noteq> a \<Longrightarrow> argument_at (h[a := Argument nm v]) b = argument_at h b"
  by (auto simp: argument_at_def)

lemma declared_update:
  "argument_at h a = Inr (nm0, v) \<Longrightarrow> declared (h[a := Argument nm v]) b = declared h b"
  by (cases "b = a") (auto simp: declared_def argument_at_def split: if_splits obj.splits)

lemma reconcile_frame:
  "reconcile g h ps = Inr h' \<Longrightarrow>
   length h' = length h
   \<and> (\<forall>s. spec_arg h' s = spec_arg h s)
   \<and> (\<forall>r. output_specs h' r = output_specs h r)
   \<and> (\<forall>b. declared h' b = declared h b)
   \<and> (\<forall>b. (\<forall>p \<in> set ps. spec_arg h (snd p) \<noteq> Inr b) \<longrightarrow> h' ! b = h ! b)"
proof (induction ps arbitrary: h)
  case Nil
  then show ?case by simp
next
  case (Cons p ps)
  obtain x s where p: "p = (x, s)" by (cases p)
  from Cons.prems p obtain a nm v where
    a: "spec_arg h s = Inr a" and av: "argument_at h a = Inr (nm, v)"
    by (auto simp: thn_def split: sum.splits)
  show ?case
  proof (cases "x = ANone")
    case True
    with Cons.prems p a av have "reconcile g h ps = Inr h'"
      by (auto split: option.splits if_splits)
    from Cons.IH[OF this] show ?thesis by auto
  next
    case False
    with Cons.prems p a av obtain n where n: "member_node g x = Inr n"
      by (auto simp: thn_def split: sum.splits)
    define h1 where "h1 = (if nm \<noteq> name n then h[a := Argument (name n) v] else h)"
    from Cons.prems p a av False n have r: "reconcile g h1 ps = Inr h'"
      by (auto simp: h1_def)
    have 1: "length h1 = length h" by (simp add: h1_def)
    have 2: "spec_arg h1 s' = spec_arg h s'" for s'
      using av by (simp add: h1_def spec_arg_update)
    have 3: "output_specs h1 r' = output_specs h r'" for r'
      using av by (simp add: h1_def output_specs_update)
    have 4: "declared h1 b = declared h b" for b
      using av by (simp add: h1_def declared_update)
    have 5: "b \<noteq> a \<Longrightarrow> h1 ! b = h ! b" for b
      by (simp add: h1_def)
    from Cons.IH[OF r] 1 2 3 4 5 a p show ?thesis
      by (auto simp: )
  qed
qed


lemma entry_declared:
  "map_option snd (entry h s) = (case spec_arg h s of Inl _ \<Rightarrow> None | Inr a \<Rightarrow> declared h a)"
  by (auto simp: entry_def declared_def split: sum.splits)

lemma reconcile_aborts:
  "(ANone, s) \<in> set ps \<Longrightarrow> map_option snd (entry h s) \<noteq> Some (Some ANone) \<Longrightarrow>
   isl (reconcile g h ps)"
proof (induction ps arbitrary: h)
  case Nil
  then show ?case by simp
next
  case (Cons p ps)
  obtain x0 s0 where p: "p = (x0, s0)" by (cases p)
  show ?case
  proof (cases "reconcile g h (p # ps)")
    case (Inl e)
    then show ?thesis by simp
  next
    case (Inr h')
    with p obtain a nm v where
      a: "spec_arg h s0 = Inr a" and av: "argument_at h a = Inr (nm, v)"
      by (auto simp: thn_def split: sum.splits)
    have head: "p \<noteq> (ANone, s)"
    proof
      assume "p = (ANone, s)"
      with p Inr a av Cons.prems(2) show False
        by (auto simp: entry_def split: option.splits if_splits)
    qed
    with Cons.prems(1) have mem: "(ANone, s) \<in> set ps" by simp
    from Inr p a av obtain h1 where
      r: "reconcile g h1 ps = Inr h'" and
      h1: "h1 = h \<or> (\<exists>nm'. h1 = h[a := Argument nm' v])"
      by (auto simp: thn_def split: option.splits if_splits sum.splits)
    from h1 have "map_option snd (entry h1 s) = map_option snd (entry h s)"
      by (auto simp: entry_declared spec_arg_update[OF av] declared_update[OF av]
          split: sum.splits)
    with Cons.prems(2) have "map_option snd (entry h1 s) \<noteq> Some (Some ANone)" by simp
    from Cons.IH[OF mem this] r show ?thesis by simp
  qed
qed

lemma entry_frame:
  assumes "length h' = length h" "spec_arg h' s = spec_arg h s"
    and "\<And>a. spec_arg h s = Inr a \<Longrightarrow> h' ! a = h ! a"
  shows "entry h' s = entry h s"
  using assms by (auto simp: entry_def argument_at_def split: sum.splits)

lemma reconcile_names:
  "reconcile g h ps = Inr h' \<Longrightarrow> distinct (map (\<lambda>p. spec_arg h (snd p)) ps) \<Longrightarrow>
   \<forall>p \<in> set ps.
     (fst p = ANone \<longrightarrow> entry h' (snd p) = entry h (snd p)
         \<and> map_option snd (entry h (snd p)) = Some (Some ANone))
   \<and> (fst p \<noteq> ANone \<longrightarrow>
         (\<exists>n. member_node g (fst p) = Inr n \<and> map_option fst (entry h' (snd p)) = Some (name n)))"
proof (induction ps arbitrary: h)
  case Nil
  then show ?case by simp
next
  case (Cons p ps)
  obtain x s where p: "p = (x, s)" by (cases p)
  from Cons.prems(1) p obtain a nm v where
    a: "spec_arg h s = Inr a" and av: "argument_at h a = Inr (nm, v)"
    by (auto simp: thn_def split: sum.splits)
  have fresh: "\<forall>q \<in> set ps. spec_arg h (snd q) \<noteq> Inr a"
  proof
    fix q assume "q \<in> set ps"
    then have "spec_arg h (snd q) \<in> set (map (\<lambda>p. spec_arg h (snd p)) ps)" by simp
    moreover from Cons.prems(2) p a
    have "Inr a \<notin> set (map (\<lambda>p. spec_arg h (snd p)) ps)" by simp
    ultimately show "spec_arg h (snd q) \<noteq> Inr a" by metis
  qed
  from Cons.prems(2) have dist: "distinct (map (\<lambda>p. spec_arg h (snd p)) ps)" by simp
  show ?case
  proof (cases "x = ANone")
    case True
    with Cons.prems(1) p a av have r: "reconcile g h ps = Inr h'" and v: "v = Some ANone"
      by (auto split: option.splits if_splits)
    from reconcile_frame[OF r] fresh a have keep: "entry h' s = entry h s"
      by (intro entry_frame) auto
    from a av v have "map_option snd (entry h s) = Some (Some ANone)"
      by (simp add: entry_def)
    with Cons.IH[OF r dist] keep True p show ?thesis by simp
  next
    case False
    with Cons.prems(1) p a av obtain n where n: "member_node g x = Inr n"
      by (auto simp: thn_def split: sum.splits)
    define h1 where "h1 = (if nm \<noteq> name n then h[a := Argument (name n) v] else h)"
    from Cons.prems(1) p a av False n have r: "reconcile g h1 ps = Inr h'"
      by (auto simp: h1_def)
    have sa: "spec_arg h1 s' = spec_arg h s'" for s'
      using av by (simp add: h1_def spec_arg_update)
    have len: "length h1 = length h" by (simp add: h1_def)
    have at: "argument_at h1 a = Inr (name n, v)"
      using av by (auto simp: h1_def argument_at_update_same)
    have other: "b \<noteq> a \<Longrightarrow> h1 ! b = h ! b" for b by (simp add: h1_def)
    from dist sa have dist1: "distinct (map (\<lambda>p. spec_arg h1 (snd p)) ps)" by simp
    note IH = Cons.IH[OF r dist1]
    from reconcile_frame[OF r] fresh a sa have "entry h' s = entry h1 s"
      by (intro entry_frame) auto
    with a sa at have first: "map_option fst (entry h' s) = Some (name n)"
      by (simp add: entry_def)
    have rest: "entry h1 (snd q) = entry h (snd q)" if "q \<in> set ps" for q
    proof (rule entry_frame[OF len sa])
      fix b assume "spec_arg h (snd q) = Inr b"
      with fresh that have "b \<noteq> a" by auto
      then show "h1 ! b = h ! b" by (rule other)
    qed
    from IH rest first n False p show ?thesis by auto
  qed
qed

text \<open>
  C9. The reconciliation of source lines 213 to 223, for a new graph whose last output
  instruction returns the sequence \<open>items\<close> and a signature with the entries \<open>specs\<close>:
  it fails its assertion when the two differ in length; it aborts when some \<open>None\<close> output
  is paired with an entry whose declared value is not \<open>None\<close>; and when it returns, item
  and entry \<open>j\<close> were paired for every \<open>j\<close>: the entry of a node has that node's name
  and the entry of a \<open>None\<close> output is as it was. The last part is for entries with
  arguments of their own (two entries that share one argument object also share its
  name).
\<close>

theorem reconcile_signature_walks_in_order:
  assumes "rev (filter (\<lambda>n. op n = Output) g) = new_gm_out_node # others"
    and "args new_gm_out_node = a # as"
    and "sequence_items a = Inr items"
    and "output_specs h r = Inr specs"
  shows "(length items \<noteq> length specs \<longrightarrow> reconcile_signature g h r = Inl AssertionError)
    \<and> (length items = length specs \<longrightarrow>
         (\<forall>j < length items.
            items ! j = ANone \<and> map_option snd (entry h (specs ! j)) \<noteq> Some (Some ANone)
            \<longrightarrow> isl (reconcile_signature g h r)))
    \<and> (\<forall>h'. reconcile_signature g h r = Inr h' \<and> distinct (map (spec_arg h) specs) \<longrightarrow>
         length items = length specs
         \<and> (\<forall>j < length items.
              (items ! j = ANone \<longrightarrow> entry h' (specs ! j) = entry h (specs ! j))
            \<and> (items ! j \<noteq> ANone \<longrightarrow>
                 (\<exists>n. member_node g (items ! j) = Inr n
                    \<and> map_option fst (entry h' (specs ! j)) = Some (name n)))))"
proof -
  have unfold: "reconcile_signature g h r =
      (if length items \<noteq> length specs then Inl AssertionError
       else reconcile g h (zip items specs))"
    using assms by (simp add: reconcile_signature_def)
  have abort: "isl (reconcile_signature g h r)"
    if "length items = length specs" "j < length items" "items ! j = ANone"
       "map_option snd (entry h (specs ! j)) \<noteq> Some (Some ANone)" for j
  proof -
    from that have "(ANone, specs ! j) \<in> set (zip items specs)"
      by (auto simp: in_set_zip)
    from reconcile_aborts[OF this that(4)] that(1) unfold show ?thesis by simp
  qed
  have names: "length items = length specs
         \<and> (\<forall>j < length items.
              (items ! j = ANone \<longrightarrow> entry h' (specs ! j) = entry h (specs ! j))
            \<and> (items ! j \<noteq> ANone \<longrightarrow>
                 (\<exists>n. member_node g (items ! j) = Inr n
                    \<and> map_option fst (entry h' (specs ! j)) = Some (name n))))"
    if ok: "reconcile_signature g h r = Inr h'" and d: "distinct (map (spec_arg h) specs)" for h'
  proof -
    from ok unfold have len: "length items = length specs"
      and rec: "reconcile g h (zip items specs) = Inr h'"
      by (auto split: if_splits)
    have "map (\<lambda>p. spec_arg h (snd p)) (zip items specs)
            = map (spec_arg h) (map snd (zip items specs))"
      by (simp add: comp_def)
    with len have "map (\<lambda>p. spec_arg h (snd p)) (zip items specs) = map (spec_arg h) specs"
      by (simp only: map_snd_zip)
    with d have "distinct (map (\<lambda>p. spec_arg h (snd p)) (zip items specs))" by simp
    note N = reconcile_names[OF rec this]
    have "(items ! j = ANone \<longrightarrow> entry h' (specs ! j) = entry h (specs ! j))
        \<and> (items ! j \<noteq> ANone \<longrightarrow>
             (\<exists>n. member_node g (items ! j) = Inr n
                \<and> map_option fst (entry h' (specs ! j)) = Some (name n)))"
      if "j < length items" for j
    proof -
      from that len have "(items ! j, specs ! j) \<in> set (zip items specs)"
        by (auto simp: in_set_zip)
      from bspec[OF N this] show ?thesis by simp
    qed
    with len show ?thesis by simp
  qed
  show ?thesis
  proof (intro conjI impI allI)
    assume "length items \<noteq> length specs"
    with unfold show "reconcile_signature g h r = Inl AssertionError" by simp
  next
    fix j
    assume "length items = length specs" "j < length items"
      "items ! j = ANone \<and> map_option snd (entry h (specs ! j)) \<noteq> Some (Some ANone)"
    then show "isl (reconcile_signature g h r)" using abort by blast
  next
    fix h'
    assume "reconcile_signature g h r = Inr h' \<and> distinct (map (spec_arg h) specs)"
    then show "length items = length specs" using names by blast
  next
    fix h' j
    assume "reconcile_signature g h r = Inr h' \<and> distinct (map (spec_arg h) specs)"
      "j < length items" "items ! j = ANone"
    then show "entry h' (specs ! j) = entry h (specs ! j)" using names by blast
  next
    fix h' j
    assume "reconcile_signature g h r = Inr h' \<and> distinct (map (spec_arg h) specs)"
      "j < length items" "items ! j \<noteq> ANone"
    then show "\<exists>n. member_node g (items ! j) = Inr n
                    \<and> map_option fst (entry h' (specs ! j)) = Some (name n)" using names by blast
  qed
qed

theorem reconcile_signature_walks_in_order_witness:
  "output_specs two_outputs_heap 4 = Inr [1, 3]
   \<and> distinct (map (spec_arg two_outputs_heap) [1, 3])
   \<and> reconcile_signature two_outputs_graph two_outputs_heap 4
       = Inr (two_outputs_heap[0 := Argument ''y'' None])
   \<and> map_option fst (entry (two_outputs_heap[0 := Argument ''y'' None]) 1) = Some ''y''
   \<and> entry (two_outputs_heap[0 := Argument ''y'' None]) 3 = entry two_outputs_heap 3"
proof -
  let ?out = "mk_node 2 ''output'' Output (Str ''output'') [ATuple [ANode 1, ANone]]"
  let ?h' = "two_outputs_heap[0 := Argument ''y'' None]"
  have 1: "rev (filter (\<lambda>n. op n = Output) two_outputs_graph) = ?out # []"
    by (simp add: two_outputs_graph_def mk_node_def)
  have 2: "args ?out = ATuple [ANode 1, ANone] # []"
    by (simp add: mk_node_def)
  have 3: "sequence_items (ATuple [ANode 1, ANone]) = Inr [ANode 1, ANone]"
    by (simp add: sequence_items_def)
  have 4: "output_specs two_outputs_heap 4 = Inr [1, 3]"
    by (simp add: output_specs_def two_outputs_heap_def)
  have d: "distinct (map (spec_arg two_outputs_heap) [1, 3])"
    by (simp add: spec_arg_def two_outputs_heap_def)
  have ev: "reconcile_signature two_outputs_graph two_outputs_heap 4 = Inr ?h'"
    by code_simp
  from reconcile_signature_walks_in_order[OF 1 2 3 4] ev d
  have names: "\<forall>j < length [ANode 1, ANone].
              ([ANode 1, ANone] ! j = ANone \<longrightarrow> entry ?h' ([1, 3] ! j) = entry two_outputs_heap ([1, 3] ! j))
            \<and> ([ANode 1, ANone] ! j \<noteq> ANone \<longrightarrow>
                 (\<exists>n. member_node two_outputs_graph ([ANode 1, ANone] ! j) = Inr n
                    \<and> map_option fst (entry ?h' ([1, 3] ! j)) = Some (name n)))"
    by blast
  from names[rule_format, of 0] have "map_option fst (entry ?h' 1) = Some ''y''"
    by (auto simp: member_node_def find_node_def two_outputs_graph_def mk_node_def)
  moreover from names[rule_format, of 1] have "entry ?h' 3 = entry two_outputs_heap 3"
    by simp
  ultimately show ?thesis using 4 d ev by simp
qed

subsection \<open>The signature in the store\<close>

lemma fresh_region_start: "fresh_region (length h) h"
  by (simp add: fresh_region_def)

lemma fresh_region_append:
  "fresh_region k h \<Longrightarrow> \<forall>x \<in> set (obj_refs y). k \<le> x \<Longrightarrow> fresh_region k (h @ [y])"
  by (auto simp: fresh_region_def nth_append less_Suc_eq)

lemma fresh_region_update:
  assumes "fresh_region k h"
  shows "fresh_region k (h[a := Argument nm v])"
  unfolding fresh_region_def
proof (intro allI impI)
  fix s
  assume s: "k \<le> s \<and> s < length (h[a := Argument nm v])"
  show "\<forall>x \<in> set (obj_refs (h[a := Argument nm v] ! s)). k \<le> x"
  proof (cases "s = a")
    case True
    with s show ?thesis by simp
  next
    case False
    with s assms show ?thesis by (simp add: fresh_region_def)
  qed
qed

lemma fresh_region_spec_arg:
  "fresh_region k h \<Longrightarrow> k \<le> s \<Longrightarrow> spec_arg h s = Inr a \<Longrightarrow> k \<le> a"
  by (auto simp: fresh_region_def spec_arg_def split: if_splits obj.splits)

lemma fresh_region_output_specs:
  "fresh_region k h \<Longrightarrow> k \<le> r \<Longrightarrow> output_specs h r = Inr specs \<Longrightarrow> \<forall>s \<in> set specs. k \<le> s"
  by (auto simp: fresh_region_def output_specs_def split: if_splits obj.splits)

lemma copy_argument_fresh:
  assumes "copy_argument h memo a = Inr (h', memo', a')"
    and "k \<le> length h" "memo_fresh k memo" "fresh_region k h"
  shows "take k h' = take k h \<and> k \<le> length h' \<and> memo_fresh k memo' \<and> fresh_region k h' \<and> k \<le> a'"
  using assms
  by (auto simp: copy_argument_def alloc_def thn_def memo_fresh_def fresh_region_append
      split: option.splits sum.splits prod.splits if_splits)

lemma copy_spec_fresh:
  assumes "copy_spec h memo s = Inr (h', memo', s')"
    and "k \<le> length h" "memo_fresh k memo" "fresh_region k h"
  shows "take k h' = take k h \<and> k \<le> length h' \<and> memo_fresh k memo' \<and> fresh_region k h' \<and> k \<le> s'"
proof (cases "memo s")
  case (Some y)
  with assms show ?thesis by (auto simp: copy_spec_def memo_fresh_def)
next
  case None
  with assms(1) obtain a h1 memo1 a' where
    c: "copy_argument h memo a = Inr (h1, memo1, a')"
    and r: "h' = h1 @ [OutputSpec a']" "memo' = memo1(s \<mapsto> length h1)" "s' = length h1"
    by (auto simp: copy_spec_def thn_def alloc_def split: sum.splits prod.splits)
  from copy_argument_fresh[OF c assms(2-4)] r show ?thesis
    by (auto simp: memo_fresh_def fresh_region_append)
qed

lemma copy_specs_fresh:
  "copy_specs h memo ss = Inr (h', memo', ss') \<Longrightarrow>
   k \<le> length h \<Longrightarrow> memo_fresh k memo \<Longrightarrow> fresh_region k h \<Longrightarrow>
   take k h' = take k h \<and> k \<le> length h' \<and> memo_fresh k memo' \<and> fresh_region k h'
     \<and> (\<forall>s \<in> set ss'. k \<le> s)"
proof (induction ss arbitrary: h memo h' memo' ss')
  case Nil
  then show ?case by simp
next
  case (Cons s ss)
  from Cons.prems(1) obtain h1 memo1 s1 ss1 where
    a: "copy_spec h memo s = Inr (h1, memo1, s1)"
    and b: "copy_specs h1 memo1 ss = Inr (h', memo', ss1)" and c: "ss' = s1 # ss1"
    by (auto simp: thn_def split: sum.splits prod.splits)
  note A = copy_spec_fresh[OF a Cons.prems(2-4)]
  from A have 1: "k \<le> length h1" "memo_fresh k memo1" "fresh_region k h1" by simp_all
  from Cons.IH[OF b 1] A c show ?case by simp
qed

lemma deepcopy_fresh:
  assumes "deepcopy h r = Inr (h', r')"
  shows "take (length h) h' = h \<and> length h \<le> r' \<and> r' < length h' \<and> r < length h
         \<and> fresh_region (length h) h'"
proof -
  from assms obtain specs h1 memo1 specs' where
    o: "output_specs h r = Inr specs"
    and c: "copy_specs h Map.empty specs = Inr (h1, memo1, specs')"
    and r: "h' = h1 @ [ExportGraphSignature specs']" "r' = length h1"
    by (auto simp: deepcopy_def thn_def alloc_def split: sum.splits prod.splits)
  have "memo_fresh (length h) Map.empty" by (simp add: memo_fresh_def)
  from copy_specs_fresh[OF c _ this fresh_region_start]
  have A: "take (length h) h1 = h" "length h \<le> length h1" "fresh_region (length h) h1"
    "\<forall>s \<in> set specs'. length h \<le> s" by simp_all
  from o have "r < length h" by (auto simp: output_specs_def split: if_splits)
  with A r show ?thesis by (simp add: fresh_region_append)
qed

lemma reconcile_fresh:
  "reconcile g h ps = Inr h' \<Longrightarrow> fresh_region k h \<Longrightarrow> \<forall>p \<in> set ps. k \<le> snd p \<Longrightarrow>
   take k h' = take k h \<and> fresh_region k h'"
proof (induction ps arbitrary: h)
  case Nil
  then show ?case by simp
next
  case (Cons p ps)
  obtain x s where p: "p = (x, s)" by (cases p)
  from Cons.prems(1) p obtain a nm v where
    a: "spec_arg h s = Inr a" and av: "argument_at h a = Inr (nm, v)"
    by (auto simp: thn_def split: sum.splits)
  from Cons.prems(2,3) p a have ka: "k \<le> a" by (auto intro: fresh_region_spec_arg)
  from Cons.prems(1) p a av obtain h1 where
    r: "reconcile g h1 ps = Inr h'" and
    h1: "h1 = h \<or> (\<exists>nm'. h1 = h[a := Argument nm' v])"
    by (auto simp: thn_def split: option.splits if_splits sum.splits)
  from h1 ka Cons.prems(2) have "take k h1 = take k h" "fresh_region k h1"
    by (auto simp: fresh_region_update)
  with Cons.IH[OF r] Cons.prems(3) show ?case by simp
qed

lemma rename_specs_fresh:
  "rename_specs h ss ev = Inr h' \<Longrightarrow> fresh_region k h \<Longrightarrow> \<forall>s \<in> set ss. k \<le> s \<Longrightarrow>
   take k h' = take k h \<and> fresh_region k h' \<and> (\<forall>r. output_specs h' r = output_specs h r)
     \<and> length h' = length h"
proof (induction ss arbitrary: h)
  case Nil
  then show ?case by simp
next
  case (Cons s ss)
  from Cons.prems(1) obtain a nm v where
    a: "spec_arg h s = Inr a" and av: "argument_at h a = Inr (nm, v)"
    and r: "rename_specs (if nm = fst ev then h[a := Argument (snd ev) v] else h) ss ev = Inr h'"
    by (auto simp: thn_def split: sum.splits)
  from Cons.prems(2,3) a have ka: "k \<le> a" by (auto intro: fresh_region_spec_arg)
  define h1 where "h1 = (if nm = fst ev then h[a := Argument (snd ev) v] else h)"
  from ka Cons.prems(2) have 1: "take k h1 = take k h" "fresh_region k h1" "length h1 = length h"
    by (auto simp: h1_def fresh_region_update)
  have 2: "output_specs h1 r' = output_specs h r'" for r'
    using av by (simp add: h1_def output_specs_update)
  from Cons.IH[OF r[folded h1_def] 1(2)] Cons.prems(3) 1 2 show ?case by simp
qed

lemma replace_hook_fresh:
  "replace_hook h r evs = Inr h' \<Longrightarrow> fresh_region k h \<Longrightarrow> k \<le> r \<Longrightarrow>
   take k h' = take k h \<and> fresh_region k h' \<and> length h' = length h"
proof (induction evs arbitrary: h)
  case Nil
  then show ?case by simp
next
  case (Cons ev evs)
  from Cons.prems(1) obtain specs h1 where
    o: "output_specs h r = Inr specs" and a: "rename_specs h specs ev = Inr h1"
    and b: "replace_hook h1 r evs = Inr h'"
    by (auto simp: thn_def split: sum.splits)
  from fresh_region_output_specs[OF Cons.prems(2,3) o]
  have "\<forall>s \<in> set specs. k \<le> s" .
  from rename_specs_fresh[OF a Cons.prems(2) this]
  have 1: "take k h1 = take k h" "fresh_region k h1" "length h1 = length h" by simp_all
  from Cons.IH[OF b 1(2) Cons.prems(3)] 1 show ?case by simp
qed

lemma reconcile_signature_fresh:
  assumes "reconcile_signature g h r = Inr h'" "fresh_region k h" "k \<le> r"
  shows "take k h' = take k h \<and> fresh_region k h' \<and> length h' = length h"
proof -
  from assms(1) obtain items specs where
    o: "output_specs h r = Inr specs" and rec: "reconcile g h (zip items specs) = Inr h'"
    by (auto simp: reconcile_signature_def thn_def split: list.splits sum.splits if_splits)
  from fresh_region_output_specs[OF assms(2,3) o]
  have "\<forall>p \<in> set (zip items specs). k \<le> snd p"
    by (auto dest: set_zip_rightD)
  from reconcile_fresh[OF rec assms(2) this] reconcile_frame[OF rec] show ?thesis by simp
qed

lemma split_and_replace_fresh:
  assumes "sequential_split_and_maybe_inline_subgraphs h gm (Some r) = Inr (gm', s', h')"
    and "list_ex is_autocast_node (graph gm)"
  shows "\<exists>r'. s' = Some r' \<and> r < length h \<and> length h \<le> r' \<and> r' < length h'
           \<and> take (length h) h' = h \<and> fresh_region (length h) h'"
proof -
  from assms obtain new_gm h1 r' h2 evs where
    d: "deepcopy h r = Inr (h1, r')"
    and rc: "reconcile_signature (graph new_gm) h1 r' = Inr h2"
    and hk: "replace_hook h2 r' evs = Inr h'" and s: "s' = Some r'"
    by (auto simp: sequential_split_and_maybe_inline_subgraphs_def thn_def
        split: sum.splits prod.splits option.splits)
  note D = deepcopy_fresh[OF d]
  from D have 1: "fresh_region (length h) h1" "length h \<le> r'" by simp_all
  note R = reconcile_signature_fresh[OF rc 1]
  from R have 2: "fresh_region (length h) h2" by simp
  note H = replace_hook_fresh[OF hk 2 1(2)]
  from R H have "length h' = length h1" by simp
  with D R H s show ?thesis by simp
qed

lemma returned_signature_SomeD:
  "returned_signature r = Some (s, h) \<Longrightarrow> \<exists>gm. r = Some (Inr (gm, s, h))"
  by (auto simp: returned_signature_def split: option.splits sum.splits prod.splits)

text \<open>
  C10. A call of the pass with the signature at address \<open>r\<close> of the store \<open>h\<close> leaves
  every object of \<open>h\<close> as it was. When the graph holds a marker, the signature it
  returns is another object than the caller's: a new one, and every object reached from
  it is new. Only when the graph holds no marker is the caller's own signature handed
  back.
\<close>

theorem pass_signature_is_fresh_copy:
  assumes "replace_autocast_with_hop_pass fuel h gm (Some r) = Some (Inr (gm', s', h'))"
  shows "take (length h) h' = h
    \<and> (list_ex is_autocast_node (graph gm) \<longrightarrow>
         (\<exists>r'. s' = Some r' \<and> r' \<noteq> r \<and> length h \<le> r' \<and> r' < length h'
               \<and> fresh_region (length h) h'))
    \<and> (\<not> list_ex is_autocast_node (graph gm) \<longrightarrow> s' = Some r \<and> h' = h)"
proof -
  from assms obtain k where k: "fuel = Suc k" by (cases fuel) auto
  from assms[unfolded k] obtain new_gm h1 where
    a: "sequential_split_and_maybe_inline_subgraphs h gm (Some r) = Inr (new_gm, s', h1)"
    and b: "descend (\<lambda>h' subgm. map_option (map_sum id (\<lambda>(new_subgm, _, h''). (new_subgm, h'')))
                       (replace_autocast_with_hop_pass k h' subgm None))
                  (graph new_gm) h1 new_gm = Some (Inr (gm', h'))"
    by (rule pass_Suc_returns)
  from descend_pass[OF b] have h': "h' = h1" by simp
  show ?thesis
  proof (cases "list_ex is_autocast_node (graph gm)")
    case True
    from split_and_replace_fresh[OF a True] obtain r' where
      "s' = Some r'" "r < length h" "length h \<le> r'" "r' < length h1"
      "take (length h) h1 = h" "fresh_region (length h) h1" by blast
    with h' True show ?thesis by auto
  next
    case False
    from no_markers_step[OF False, of h "Some r"] a have "s' = Some r" "h1 = h" by simp_all
    with h' False show ?thesis by simp
  qed
qed

theorem pass_signature_is_fresh_copy_witness:
  "list_ex is_autocast_node (graph region_gm)
   \<and> returned_signature (replace_autocast_with_hop_pass 3 sig_heap region_gm (Some 2))
       = Some (Some 5, sig_heap @ [Argument ''c'' None, OutputSpec 3, ExportGraphSignature [4]])
   \<and> fresh_region (length sig_heap)
        (sig_heap @ [Argument ''c'' None, OutputSpec 3, ExportGraphSignature [4]])"
proof -
  let ?h' = "sig_heap @ [Argument ''c'' None, OutputSpec 3, ExportGraphSignature [4]]"
  have m: "list_ex is_autocast_node (graph region_gm)"
    by code_simp
  have ev: "returned_signature (replace_autocast_with_hop_pass 3 sig_heap region_gm (Some 2))
       = Some (Some 5, ?h')"
    by code_simp
  from returned_signature_SomeD[OF ev] obtain gm' where
    "replace_autocast_with_hop_pass 3 sig_heap region_gm (Some 2) = Some (Inr (gm', Some 5, ?h'))"
    by blast
  from pass_signature_is_fresh_copy[OF this]
  have "list_ex is_autocast_node (graph region_gm) \<longrightarrow>
          (\<exists>r'. Some 5 = Some r' \<and> r' \<noteq> 2 \<and> length sig_heap \<le> r' \<and> r' < length ?h'
               \<and> fresh_region (length sig_heap) ?h')"
    by (rule conjunct1[OF conjunct2])
  with m have fr: "fresh_region (length sig_heap) ?h'" by blast
  show ?thesis by (intro conjI) (rule m, rule ev, rule fr)
qed

subsection \<open>The region outliner on a scope-body segment\<close>

text \<open>A created name is new, and it is the asked name when that one is free.\<close>

lemma digit_value_digit: "d < 10 \<Longrightarrow> digit_value (''0123456789'' ! d) = d"
proof -
  assume "d < 10"
  then have "d = 0 \<or> d = 1 \<or> d = 2 \<or> d = 3 \<or> d = 4 \<or> d = 5 \<or> d = 6 \<or> d = 7
    \<or> d = 8 \<or> d = 9" by arith
  then show ?thesis by (elim disjE) (simp_all add: digit_value_def)
qed

lemma nat_of_digits_snoc: "nat_of_digits (ds @ [c]) = 10 * nat_of_digits ds + digit_value c"
  by (simp add: nat_of_digits_def)

lemma nat_of_digits_string_of_nat: "nat_of_digits (string_of_nat n) = n"
proof (induction n rule: string_of_nat.induct)
  case (1 n)
  show ?case
  proof (cases "n < 10")
    case True
    then show ?thesis
      by (subst string_of_nat.simps) (simp add: nat_of_digits_def digit_value_digit)
  next
    case False
    with 1 have "nat_of_digits (string_of_nat (n div 10)) = n div 10" by simp
    with False show ?thesis
      by (subst string_of_nat.simps) (simp add: nat_of_digits_snoc digit_value_digit)
  qed
qed

lemma string_of_nat_inj: "string_of_nat m = string_of_nat n \<Longrightarrow> m = n"
  by (metis nat_of_digits_string_of_nat)

lemma numbered_inj: "numbered base j = numbered base k \<Longrightarrow> j = k"
  by (simp add: numbered_def string_of_nat_inj)

lemma free_number:
  "\<exists>k \<in> set [Suc num..<num + length used + 2]. numbered base k \<notin> set used"
proof (rule ccontr)
  let ?K = "{Suc num..<num + length used + 2}"
  assume "\<not> ?thesis"
  then have "\<And>k. k \<in> ?K \<Longrightarrow> numbered base k \<in> set used"
    unfolding set_upt by blast
  then have "numbered base ` ?K \<subseteq> set used" by blast
  then have "card (numbered base ` ?K) \<le> card (set used)"
    by (intro card_mono) simp_all
  moreover have "card (numbered base ` ?K) = card ?K"
    by (intro card_image inj_onI) (rule numbered_inj)
  moreover have "card (set used) \<le> length used" by (rule card_length)
  ultimately show False by simp
qed

lemma create_name_unused: "candidate \<notin> set used \<Longrightarrow> create_name used candidate = candidate"
  by (simp add: create_name_def)

lemma create_name_fresh: "create_name used candidate \<notin> set used"
proof (cases "candidate \<in> set used")
  case False
  then show ?thesis by (simp add: create_name_unused)
next
  case True
  obtain base num where s: "name_suffix candidate = (base, num)" by (cases "name_suffix candidate")
  from free_number[of num used base] obtain k where
    "find (\<lambda>k. numbered base k \<notin> set used) [Suc num..<num + length used + 2] = Some k"
    by (cases "find (\<lambda>k. numbered base k \<notin> set used) [Suc num..<num + length used + 2]")
       (auto simp: find_None_iff)
  moreover from this have "numbered base k \<notin> set used" by (auto simp: find_Some_iff)
  ultimately show ?thesis using True s by (simp add: create_name_def)
qed

lemma rename_to_unused: "candidate \<notin> name ` set g \<Longrightarrow> rename_to g n candidate = candidate"
  by (simp add: rename_to_def create_name_unused)

lemma fresh_id_fold:
  "b \<le> fold (\<lambda>n m. max (Suc (nid n)) m) g b \<and> (\<forall>m \<in> set g. nid m < fold (\<lambda>n m. max (Suc (nid n)) m) g b)"
proof (induction g arbitrary: b)
  case Nil
  then show ?case by simp
next
  case (Cons n g)
  from Cons.IH[of "max (Suc (nid n)) b"] show ?case by auto
qed

lemma fresh_id_greater: "m \<in> set g \<Longrightarrow> nid m < fresh_id g"
  using fresh_id_fold[of 0 g] by (simp add: fresh_id_def)

lemma find_node_split:
  assumes "distinct (map nid g)" "find_node g i = Some n"
  obtains pre post where "g = pre @ n # post" "nid n = i"
    "\<forall>m \<in> set pre. nid m \<noteq> i" "\<forall>m \<in> set post. nid m \<noteq> i"
proof -
  from assms(2) obtain k where k: "k < length g" "nid (g ! k) = i" "n = g ! k"
    "\<forall>j < k. nid (g ! j) \<noteq> i"
    by (auto simp: find_node_def find_Some_iff)
  let ?pre = "take k g" and ?post = "drop (Suc k) g"
  from k have g: "g = ?pre @ n # ?post" by (simp add: id_take_nth_drop)
  from k have pre: "\<forall>m \<in> set ?pre. nid m \<noteq> i"
    by (auto simp: in_set_conv_nth)
  have post: "\<forall>m \<in> set ?post. nid m \<noteq> i"
  proof
    fix m assume m: "m \<in> set ?post"
    from assms(1) g have "distinct (map nid (?pre @ n # ?post))" by simp
    then have "nid n \<notin> nid ` set ?post" by auto
    with m have "nid m \<noteq> nid n" by (metis imageI)
    with k show "nid m \<noteq> i" by simp
  qed
  from g k pre post show ?thesis by (intro that[of ?pre ?post]) auto
qed

lemma insert_before_split:
  "\<forall>m \<in> set pre. nid m \<noteq> i \<Longrightarrow> nid n = i \<Longrightarrow>
   insert_before (pre @ n # post) i x = pre @ x # n # post"
  by (simp add: insert_before_def takeWhile_append2 dropWhile_append2)

lemma remove_node_split:
  "\<forall>m \<in> set pre. nid m \<noteq> i \<Longrightarrow> \<forall>m \<in> set post. nid m \<noteq> i \<Longrightarrow> nid n = i \<Longrightarrow>
   remove_node (pre @ n # post) i = pre @ post"
  by (simp add: remove_node_def filter_id_conv)

lemma find_node_remove: "find_node (remove_node g i) i = None"
  by (simp add: find_node_def remove_node_def find_None_iff)

lemma users_append: "users (g @ g') i = users g i @ users g' i"
  by (simp add: users_def)

lemma users_Cons: "users (m # g) i = (if i \<in> set (node_refs m) then m # users g i else users g i)"
  by (simp add: users_def)

lemma users_remove_node: "users (remove_node g x) i = filter (\<lambda>m. nid m \<noteq> x) (users g i)"
  by (auto simp: users_def remove_node_def intro: filter_cong)

lemma defined_before_refs:
  "defined_before seen g \<Longrightarrow> m \<in> set g \<Longrightarrow> set (node_refs m) \<subseteq> set seen \<union> nid ` set g"
proof (induction g arbitrary: seen)
  case Nil
  then show ?case by simp
next
  case (Cons n g)
  show ?case
  proof (cases "m = n")
    case True
    with Cons.prems show ?thesis by (auto simp: list_all_iff)
  next
    case False
    with Cons.prems have "defined_before (nid n # seen) g" "m \<in> set g" by simp_all
    from Cons.IH[OF this] show ?thesis by auto
  qed
qed

lemma defined_before_not_self:
  "defined_before seen g \<Longrightarrow> distinct (map nid g) \<Longrightarrow> set seen \<inter> nid ` set g = {} \<Longrightarrow>
   m \<in> set g \<Longrightarrow> nid m \<notin> set (node_refs m)"
proof (induction g arbitrary: seen)
  case Nil
  then show ?case by simp
next
  case (Cons n g)
  show ?case
  proof (cases "m = n")
    case True
    with Cons.prems show ?thesis by (auto simp: list_all_iff)
  next
    case False
    with Cons.prems have a: "defined_before (nid n # seen) g" "m \<in> set g" "distinct (map nid g)"
      by simp_all
    from Cons.prems have "set (nid n # seen) \<inter> nid ` set g = {}" by auto
    from Cons.IH[OF a(1,3) this a(2)] show ?thesis .
  qed
qed

lemma users_no_refs: "node_refs x = [] \<Longrightarrow> users (pre @ x # post) i = users (pre @ post) i"
  by (simp add: users_def)

lemma erase_markers:
  assumes "users sg (nid exit_node) = []"
    and "list_all (\<lambda>u. nid u = nid exit_node) (users sg (nid enter_node))"
  shows "thn (erase_node sg (nid exit_node)) (\<lambda>sg1. thn (erase_node sg1 (nid enter_node)) f)
         = f (filter (\<lambda>m. nid m \<noteq> nid enter_node \<and> nid m \<noteq> nid exit_node) sg)"
proof -
  have 1: "erase_node sg (nid exit_node) = Inr (remove_node sg (nid exit_node))"
    using assms(1) by (simp add: erase_node_def)
  have "users (remove_node sg (nid exit_node)) (nid enter_node) = []"
    using assms(2) by (simp add: users_remove_node list_all_iff filter_empty_conv)
  then have 2: "erase_node (remove_node sg (nid exit_node)) (nid enter_node)
       = Inr (remove_node (remove_node sg (nid exit_node)) (nid enter_node))"
    by (simp add: erase_node_def)
  have 3: "remove_node (remove_node sg (nid exit_node)) (nid enter_node)
       = filter (\<lambda>m. nid m \<noteq> nid enter_node \<and> nid m \<noteq> nid exit_node) sg"
    by (auto simp: remove_node_def intro: filter_cong)
  from 1 2 3 show ?thesis by simp
qed

lemma replace_with_hop_segment:
  assumes "scope_body_segment gm n t sub_gm enter_node exit_node"
  shows "replace_with_hop gm (nid n) =
     thn (replace_call (insert_before (graph gm) (nid n) (get_attr_node_of (graph gm) t enter_node))
            (graph sub_gm) n enter_node (get_attr_node_of (graph gm) t enter_node))
       (\<lambda>(g', evs).
          Inr (GraphModule g'
                 (setattr (attrs gm) t
                    (Some (GraphModule
                       (filter (\<lambda>m. nid m \<noteq> nid enter_node \<and> nid m \<noteq> nid exit_node) (graph sub_gm))
                       (attrs sub_gm)))),
               evs))"
proof -
  from assms obtain mid as where
    f: "find_node (graph gm) (nid n) = Some n" and o: "op n = CallModule" "target n = Str t"
    and s: "get_submodule gm t = Inr sub_gm"
    and a: "nodes_filter (graph sub_gm) is_autocast_node = enter_node # mid @ [exit_node]"
    and v: "is_enter_autocast_node enter_node" "is_exit_autocast_node exit_node"
      "args exit_node = ANode (nid enter_node) # as"
    and u: "users (graph sub_gm) (nid exit_node) = []"
      "list_all (\<lambda>u. nid u = nid exit_node) (users (graph sub_gm) (nid enter_node))"
    by (auto simp: scope_body_segment_def)
  have c: "check_valid_autocast_block enter_node exit_node = Inr ()"
    using v by (simp add: check_valid_autocast_block_def py_assert_def)
  show ?thesis
    unfolding replace_with_hop_def
    by (simp add: f o s a c Let_def get_attr_node_of_def create_node_def erase_markers[OF u] split_def)
qed

lemma map_of_setattr:
  "map_of as k = Some v \<Longrightarrow> map_of (setattr as k v') k = Some v'"
proof -
  assume a: "map_of as k = Some v"
  then have "k \<in> fst ` set as" by (metis map_of_eq_None_iff option.distinct(1))
  moreover have "map_of (map (\<lambda>(k', v''). if k' = k then (k', v') else (k', v'')) as) k = Some v'"
    using a by (induction as) (auto split: if_splits)
  ultimately show ?thesis by (simp add: setattr_def)
qed

lemma get_submodule_setattr:
  "get_submodule gm t = Inr sub \<Longrightarrow>
   get_submodule (GraphModule g (setattr (attrs gm) t (Some sub'))) t = Inr sub'"
  by (auto simp: get_submodule_def map_of_setattr split: option.splits)

lemma arg_refs_subst: "arg_refs (subst_arg f a) = map f (arg_refs a)"
  by (induction a) (auto simp: map_concat comp_def intro: arg_cong[where f=concat])

lemma node_refs_subst: "node_refs (subst_node f m) = map f (node_refs m)"
  by (simp add: node_refs_def subst_node_def arg_refs_subst map_concat comp_def)

lemma subst_arg_same: "\<forall>x \<in> set (arg_refs a). f x = x \<Longrightarrow> subst_arg f a = a"
  by (induction a) (auto simp: map_idI)

lemma subst_node_same: "\<forall>x \<in> set (node_refs m). f x = x \<Longrightarrow> subst_node f m = m"
  by (auto simp: subst_node_def node_refs_def subst_arg_same map_idI)

lemma redirect_same: "i \<notin> set (node_refs m) \<Longrightarrow> redirect i j m = m"
  by (rule subst_node_same) auto

lemma subst_node_fields [simp]:
  "nid (subst_node f m) = nid m" "name (subst_node f m) = name m" "op (subst_node f m) = op m"
  "target (subst_node f m) = target m" "meta (subst_node f m) = meta m"
  by (simp_all add: subst_node_def)

lemma remove_node_map_subst:
  "remove_node (map (subst_node f) g) i = map (subst_node f) (remove_node g i)"
  by (simp add: remove_node_def filter_map comp_def)

lemma node_replace_delete:
  "node_replace g i j True = map (redirect i j) (remove_node g i)"
  by (simp add: node_replace_def replace_all_uses_with_def remove_node_map_subst)

lemma defined_before_append: "defined_before seen (xs @ ys) \<Longrightarrow> defined_before seen xs"
  by (induction xs arbitrary: seen) auto

lemma defined_before_prefix_refs:
  assumes "defined_before [] (pre @ rest)" "m \<in> set pre"
  shows "set (node_refs m) \<subseteq> nid ` set pre"
  using defined_before_refs[OF defined_before_append[OF assms(1)] assms(2)] by simp

lemma segment_layout:
  assumes "scope_body_segment gm n t sub_gm enter_node exit_node"
  obtains pre post where
    "graph gm = pre @ n # post"
    "\<forall>m \<in> set pre. nid m \<noteq> nid n" "\<forall>m \<in> set post. nid m \<noteq> nid n"
    "\<forall>m \<in> set pre. nid n \<notin> set (node_refs m)"
    "nid n \<notin> set (node_refs n)"
    "\<forall>m \<in> set (graph gm). \<forall>x \<in> set (node_refs m). x < fresh_id (graph gm)"
proof -
  from assms have d: "distinct (map nid (graph gm))" and b: "defined_before [] (graph gm)"
    and f: "find_node (graph gm) (nid n) = Some n"
    by (auto simp: scope_body_segment_def)
  from find_node_split[OF d f] obtain pre post where
    g: "graph gm = pre @ n # post" and pre: "\<forall>m \<in> set pre. nid m \<noteq> nid n"
    and post: "\<forall>m \<in> set post. nid m \<noteq> nid n" by metis
  have 1: "\<forall>m \<in> set pre. nid n \<notin> set (node_refs m)"
  proof
    fix m assume m: "m \<in> set pre"
    from b g have "defined_before [] (pre @ n # post)" by simp
    from defined_before_prefix_refs[OF this m] pre show "nid n \<notin> set (node_refs m)"
      by (metis image_iff subsetD)
  qed
  have 2: "nid n \<notin> set (node_refs n)"
    using defined_before_not_self[OF b d, of n] g by simp
  have 3: "\<forall>m \<in> set (graph gm). \<forall>x \<in> set (node_refs m). x < fresh_id (graph gm)"
  proof (intro ballI)
    fix m x assume "m \<in> set (graph gm)" "x \<in> set (node_refs m)"
    with defined_before_refs[OF b, of m] obtain m' where "m' \<in> set (graph gm)" "x = nid m'"
      by auto
    then show "x < fresh_id (graph gm)" by (simp add: fresh_id_greater)
  qed
  from g pre post 1 2 3 show ?thesis by (rule that)
qed

lemma wrap_node_fields [simp]:
  "nid (wrap_node g1 nm e ga n mt) = fresh_id g1"
  "name (wrap_node g1 nm e ga n mt) = create_name (map name g1) nm"
  "op (wrap_node g1 nm e ga n mt) = CallFunction" "target (wrap_node g1 nm e ga n mt) = WrapWithAutocast"
  "args (wrap_node g1 nm e ga n mt) = wrap_args e ga n" "meta (wrap_node g1 nm e ga n mt) = mt"
  by (simp_all add: wrap_node_def create_node_def)

lemma node_refs_wrap_args:
  "args hop = wrap_args enter_node ga n \<Longrightarrow>
   node_refs hop = node_refs enter_node @ nid ga # node_refs n"
  by (simp add: node_refs_def wrap_args_def)

lemma hop_placed:
  assumes seg: "scope_body_segment gm n t sub_gm enter_node exit_node"
    and g: "graph gm = pre @ n # post"
    and pre: "\<forall>m \<in> set pre. nid m \<noteq> nid n" and post: "\<forall>m \<in> set post. nid m \<noteq> nid n"
    and pre_refs: "\<forall>m \<in> set pre. nid n \<notin> set (node_refs m)"
    and self: "nid n \<notin> set (node_refs n)"
    and ga: "ga = get_attr_node_of (graph gm) t enter_node"
    and g1: "g1 = insert_before (graph gm) (nid n) ga"
    and hop: "nid hop = fresh_id g1" "args hop = wrap_args enter_node ga n"
  shows "node_replace (insert_before g1 (nid n) hop) (nid n) (nid hop) True
           = pre @ ga # hop # map (redirect (nid n) (nid hop)) post"
    and "g1 = pre @ ga # n # post"
    and "fresh_id (graph gm) < nid hop"
proof -
  let ?i = "nid n"
  have ga_id: "nid ga = fresh_id (graph gm)" by (simp add: ga get_attr_node_of_def create_node_def)
  have ga_i: "nid ga \<noteq> ?i"
    using fresh_id_greater[of n "graph gm"] g by (simp add: ga_id)
  have ga_refs: "node_refs ga = []" by (simp add: ga get_attr_node_of_def create_node_def node_refs_def)
  show l1: "g1 = pre @ ga # n # post"
    using g pre by (simp add: g1 insert_before_split)
  have "ga \<in> set g1" "n \<in> set g1" by (simp_all add: l1)
  then have lt: "nid ga < nid hop" "?i < nid hop"
    by (simp_all add: hop fresh_id_greater)
  then show "fresh_id (graph gm) < nid hop"
    by (simp add: ga_id)
  from lt have hop_i: "nid hop \<noteq> ?i" by simp
  have "insert_before g1 ?i hop = (pre @ [ga]) @ hop # n # post"
    unfolding l1 using insert_before_split[where pre="pre @ [ga]" and i="?i" and n=n and x=hop and post=post] pre ga_i by simp
  then have "remove_node (insert_before g1 ?i hop) ?i = pre @ ga # hop # post"
    using remove_node_split[where pre="pre @ [ga, hop]" and i="?i" and post=post and n=n] pre post ga_i hop_i by simp
  then have "node_replace (insert_before g1 ?i hop) ?i (nid hop) True
      = map (redirect ?i (nid hop)) (pre @ ga # hop # post)"
    by (simp add: node_replace_delete)
  moreover have "map (redirect ?i (nid hop)) pre = pre"
    using pre_refs by (intro map_idI) (simp add: redirect_same)
  moreover have "redirect ?i (nid hop) ga = ga"
    using ga_refs by (simp add: redirect_same)
  moreover have "redirect ?i (nid hop) hop = hop"
  proof (rule redirect_same)
    from seg have "node_refs enter_node = []" by (simp add: scope_body_segment_def)
    with self ga_i show "?i \<notin> set (node_refs hop)"
      by (simp add: node_refs_wrap_args[OF hop(2)])
  qed
  ultimately show "node_replace (insert_before g1 ?i hop) ?i (nid hop) True
           = pre @ ga # hop # map (redirect ?i (nid hop)) post"
    by simp
qed

lemma renamed_fields [simp]:
  "nid (renamed mns m) = nid m" "args (renamed mns m) = args m" "op (renamed mns m) = op m"
  "target (renamed mns m) = target m"
  by (simp_all add: renamed_def)

lemma renamed_idem [simp]: "renamed mns (renamed mns m) = renamed mns m"
  by (simp add: renamed_def getitem_index_def)

lemma node_refs_renamed [simp]: "node_refs (renamed mns m) = node_refs m"
  by (simp add: node_refs_def)

lemma member_vals_all:
  "list_all2 (\<lambda>a mn. member_node sg a = Inr mn \<and> meta mn ''val'' \<noteq> None) members mns \<Longrightarrow>
   member_vals sg members = Inr (map (\<lambda>mn. the (meta mn ''val'')) mns)"
  by (induction rule: list_all2_induct) auto

lemma rename_loop:
  assumes mem: "list_all2 (\<lambda>a mn. member_node sg a = Inr mn) members mns"
    and dn: "distinct (map name mns)"
  shows "distinct (map nid us) \<Longrightarrow> distinct (map args us) \<Longrightarrow>
         \<forall>u \<in> set us. \<exists>j < length members. args u = [ANode c, AInt (int j)] \<Longrightarrow>
         \<forall>u \<in> set us. \<forall>m \<in> set g. nid m = nid u \<longrightarrow> m = u \<Longrightarrow>
         \<forall>u \<in> set us. name (mns ! getitem_index u) \<notin> name ` set g \<Longrightarrow>
         \<exists>evs. rename_getitem_users sg members us g
           = Inr (map (\<lambda>m. if nid m \<in> nid ` set us then renamed mns m else m) g, evs)"
proof (induction us arbitrary: g)
  case Nil
  then show ?case by simp
next
  case (Cons u us)
  from mem have len: "length members = length mns" by (rule list_all2_lengthD)
  from Cons.prems(3) obtain j where j: "j < length members" "args u = [ANode c, AInt (int j)]"
    by auto
  then have ju: "getitem_index u = j" by (simp add: getitem_index_def)
  from j(1) have ix: "py_index members (AInt (int j)) = Inr (members ! j)"
    by (simp add: py_index_def index_int_def)
  from mem j(1) have mn: "member_node sg (members ! j) = Inr (mns ! j)"
    by (auto dest: list_all2_nthD)
  from Cons.prems(5) ju have free: "name (mns ! j) \<notin> name ` set g" by auto
  then have nn: "rename_to g u (name (mns ! j)) = name (mns ! j)"
    by (rule rename_to_unused)
  let ?g' = "update_node g (nid u) (\<lambda>n. n\<lparr>name := name (mns ! j), meta := meta (mns ! j)\<rparr>)"
  have g': "?g' = map (\<lambda>m. if nid m = nid u then renamed mns m else m) g"
    unfolding update_node_def
  proof (rule map_cong[OF refl])
    fix m assume "m \<in> set g"
    with Cons.prems(4) have "nid m = nid u \<Longrightarrow> args m = args u" by auto
    with j(2) show "(if nid m = nid u then m\<lparr>name := name (mns ! j), meta := meta (mns ! j)\<rparr> else m)
        = (if nid m = nid u then renamed mns m else m)"
      by (simp add: renamed_def getitem_index_def)
  qed
  have 1: "distinct (map nid us)" "distinct (map args us)"
    using Cons.prems(1,2) by simp_all
  have 3: "\<forall>u \<in> set us. \<exists>j < length members. args u = [ANode c, AInt (int j)]"
    using Cons.prems(3) by simp
  have 4: "\<forall>u' \<in> set us. \<forall>m \<in> set ?g'. nid m = nid u' \<longrightarrow> m = u'"
  proof (intro ballI impI)
    fix u' m assume u': "u' \<in> set us" and m: "m \<in> set ?g'" and e: "nid m = nid u'"
    from u' have "nid u' \<in> nid ` set us" by simp
    with Cons.prems(1) have ne: "nid u' \<noteq> nid u" by auto
    from m obtain m0 where m0: "m0 \<in> set g" "m = (if nid m0 = nid u then renamed mns m0 else m0)"
      by (auto simp: g')
    then have "nid m = nid m0" by simp
    with e ne m0 have "m = m0" by simp
    with m0 e u' Cons.prems(4) show "m = u'" by auto
  qed
  have 5: "\<forall>u' \<in> set us. name (mns ! getitem_index u') \<notin> name ` set ?g'"
  proof
    fix u' assume u': "u' \<in> set us"
    with 3 obtain j' where j': "j' < length members" "args u' = [ANode c, AInt (int j')]"
      by auto
    then have ju': "getitem_index u' = j'" by (simp add: getitem_index_def)
    from u' have "args u' \<in> args ` set us" by simp
    with Cons.prems(2) have "args u' \<noteq> args u" by auto
    with j j' have ne: "j' \<noteq> j" by auto
    have d: "name (mns ! j') \<noteq> name (mns ! j)"
      by (metis dn len j(1) j'(1) ne nth_eq_iff_index_eq length_map nth_map)
    from Cons.prems(5) u' ju' have "name (mns ! j') \<notin> name ` set g" by auto
    moreover have "name ` set ?g' \<subseteq> insert (name (mns ! j)) (name ` set g)"
    proof
      fix x assume "x \<in> name ` set ?g'"
      then obtain m0 where m0: "m0 \<in> set g"
        "x = name (if nid m0 = nid u then renamed mns m0 else m0)"
        by (auto simp: g')
      show "x \<in> insert (name (mns ! j)) (name ` set g)"
      proof (cases "nid m0 = nid u")
        case True
        with m0(1) Cons.prems(4) have "m0 = u" by auto
        with True m0(2) ju show ?thesis by (simp add: renamed_def)
      next
        case False
        with m0 show ?thesis by auto
      qed
    qed
    ultimately show "name (mns ! getitem_index u') \<notin> name ` set ?g'"
      using d ju' by auto
  qed
  from Cons.IH[OF 1 3 4 5] obtain evs where
    r: "rename_getitem_users sg members us ?g'
        = Inr (map (\<lambda>m. if nid m \<in> nid ` set us then renamed mns m else m) ?g', evs)"
    by blast
  have "map (\<lambda>m. if nid m \<in> nid ` set us then renamed mns m else m) ?g'
      = map (\<lambda>m. if nid m \<in> nid ` set (u # us) then renamed mns m else m) g"
    by (auto simp: g')
  with r j(2) ix mn nn show ?case by (simp add: Let_def)
qed

lemma users_map_redirect:
  assumes "\<forall>m \<in> set g. j \<notin> set (node_refs m)"
  shows "users (map (redirect i j) g) j = map (redirect i j) (users g i)"
proof -
  have "j \<in> set (node_refs (redirect i j m)) \<longleftrightarrow> i \<in> set (node_refs m)" if "m \<in> set g" for m
    using assms that by (auto simp: node_refs_subst)
  then show ?thesis
    by (auto simp: users_def filter_map comp_def intro!: arg_cong[where f="map (redirect i j)"] filter_cong)
qed

lemma users_none: "\<forall>m \<in> set g. i \<notin> set (node_refs m) \<Longrightarrow> users g i = []"
  by (simp add: users_def filter_empty_conv)

lemma distinct_nid_eq:
  "distinct (map nid g) \<Longrightarrow> m \<in> set g \<Longrightarrow> u \<in> set g \<Longrightarrow> nid m = nid u \<Longrightarrow> m = u"
  by (meson distinct_map inj_onD)

lemma users_subset: "set (users g c) \<subseteq> set g"
  by (auto simp: users_def)

lemma users_iff: "m \<in> set (users g c) \<longleftrightarrow> m \<in> set g \<and> c \<in> set (node_refs m)"
  by (auto simp: users_def)

lemma distinct_redirected_args:
  assumes "distinct (map args us)" "\<forall>u \<in> set us. \<exists>j. args u = [ANode i, AInt j]"
  shows "distinct (map args (map (redirect i c) us))"
proof -
  from assms(1) have d: "distinct us" and inj: "inj_on args (set us)"
    by (simp_all add: distinct_map)
  have "inj_on (\<lambda>u. args (redirect i c u)) (set us)"
  proof (rule inj_onI)
    fix u v assume u: "u \<in> set us" and v: "v \<in> set us"
      and e: "args (redirect i c u) = args (redirect i c v)"
    from assms(2) u v obtain ju jv where j: "args u = [ANode i, AInt ju]" "args v = [ANode i, AInt jv]"
      by blast
    with e have "ju = jv" by (simp add: subst_node_def)
    with j have "args u = args v" by simp
    with inj u v show "u = v" by (auto dest: inj_onD)
  qed
  with d have "distinct (map (\<lambda>u. args (redirect i c u)) us)" by (simp add: distinct_map)
  then show ?thesis by (simp add: comp_def)
qed

lemma rename_all_users:
  assumes mem: "list_all2 (\<lambda>a mn. member_node sg a = Inr mn) members mns"
    and dn: "distinct (map name mns)"
    and d: "distinct (map nid g)"
    and shape: "\<forall>u \<in> set (users g c). \<exists>j < length members. args u = [ANode c, AInt (int j)]"
    and da: "distinct (map args (users g c))"
    and free: "\<forall>u \<in> set (users g c). name (mns ! getitem_index u) \<notin> name ` set g"
  shows "\<exists>evs. rename_getitem_users sg members (users g c) g
           = Inr (map (rename_users c mns) g, evs)"
proof -
  have H: "\<forall>u \<in> set (users g c). \<forall>m \<in> set g. nid m = nid u \<longrightarrow> m = u"
    using distinct_nid_eq[OF d] users_subset[of g c] by blast
  have du: "distinct (map nid (users g c))"
    using d by (simp add: users_def distinct_map_filter)
  from rename_loop[OF mem dn du da shape H free] obtain evs where
    r: "rename_getitem_users sg members (users g c) g
         = Inr (map (\<lambda>m. if nid m \<in> nid ` set (users g c) then renamed mns m else m) g, evs)"
    by blast
  have "map (\<lambda>m. if nid m \<in> nid ` set (users g c) then renamed mns m else m) g
      = map (rename_users c mns) g"
  proof (rule map_cong[OF refl])
    fix m assume m: "m \<in> set g"
    have "nid m \<in> nid ` set (users g c) \<longleftrightarrow> c \<in> set (node_refs m)"
    proof
      assume "nid m \<in> nid ` set (users g c)"
      then obtain u where u: "u \<in> set (users g c)" "nid m = nid u" by auto
      with distinct_nid_eq[OF d m, of u] users_subset[of g c] have "m = u" by auto
      with u show "c \<in> set (node_refs m)" by (simp add: users_iff)
    next
      assume "c \<in> set (node_refs m)"
      with m show "nid m \<in> nid ` set (users g c)" by (auto simp: users_iff)
    qed
    then show "(if nid m \<in> nid ` set (users g c) then renamed mns m else m) = rename_users c mns m"
      by (simp add: rename_users_def)
  qed
  with r show ?thesis by auto
qed

text \<open>The segments of the example graphs.\<close>

lemmas ex_defs = mk_node_def find_node_def node_refs_def users_def nodes_filter_def
  is_autocast_node_def is_enter_autocast_node_def is_exit_autocast_node_def get_submodule_def
  last_output_node_def member_node_def

lemma tuple_segment:
  "scope_body_segment tuple_split_gm (mk_node 6 ''submod_1'' CallModule (Str ''submod_1'') [ANode 0])
     ''submod_1'' tuple_body
     (mk_node 1 ''b'' CallFunction EnterAutocast [AStr ''cpu''])
     (mk_node 4 ''d'' CallFunction ExitAutocast [ANode 1])"
  unfolding scope_body_segment_def
  by (simp add: tuple_split_gm_def tuple_body_def ex_defs)

lemma single_segment:
  "scope_body_segment single_split_gm (mk_node 5 ''submod_1'' CallModule (Str ''submod_1'') [ANode 0])
     ''submod_1'' single_body
     (mk_node 1 ''b'' CallFunction EnterAutocast [AStr ''cpu''])
     (mk_node 3 ''d'' CallFunction ExitAutocast [ANode 1])"
  unfolding scope_body_segment_def
  by (simp add: single_split_gm_def single_body_def ex_defs)

lemma int_segment:
  "scope_body_segment int_split_gm (mk_node 5 ''submod_1'' CallModule (Str ''submod_1'') [])
     ''submod_1'' int_body
     (mk_node 1 ''b'' CallFunction EnterAutocast [AStr ''cpu''])
     (mk_node 3 ''d'' CallFunction ExitAutocast [ANode 1])"
  unfolding scope_body_segment_def
  by (simp add: int_split_gm_def int_body_def ex_defs)

lemma void_segment:
  "scope_body_segment void_split_gm (mk_node 5 ''submod_1'' CallModule (Str ''submod_1'') [])
     ''submod_1'' void_body
     (mk_node 1 ''e1'' CallFunction EnterAutocast [AStr ''cpu''])
     (mk_node 2 ''x1'' CallFunction ExitAutocast [ANode 1])"
  unfolding scope_body_segment_def
  by (simp add: void_split_gm_def void_body_def ex_defs)

text \<open>
  C7. No output. On a scope-body segment whose child has no output instruction, and whose
  call therefore has no user, the replacement returns. The call is erased: the new graph
  is the old one with the \<^verbatim>\<open>get_attr\<close> node of source line 90 in the place of the call,
  its \<^verbatim>\<open>wrap_with_autocast\<close> nodes are those the old graph had, and the child comes
  back without its two markers.
\<close>

theorem replace_with_hop_no_output:
  assumes "scope_body_segment gm n t sub_gm enter_node exit_node"
    and "last_output_node (graph sub_gm) = None"
    and "users (graph gm) (nid n) = []"
  shows "\<exists>gm' evs pre post.
      replace_with_hop gm (nid n) = Inr (gm', evs)
    \<and> graph gm = pre @ n # post
    \<and> graph gm' = pre @ get_attr_node_of (graph gm) t enter_node # post
    \<and> find_node (graph gm') (nid n) = None
    \<and> filter (\<lambda>m. target m = WrapWithAutocast) (graph gm')
        = filter (\<lambda>m. target m = WrapWithAutocast) (graph gm)
    \<and> get_submodule gm' t
        = Inr (GraphModule
                 (filter (\<lambda>m. nid m \<noteq> nid enter_node \<and> nid m \<noteq> nid exit_node) (graph sub_gm))
                 (attrs sub_gm))"
proof -
  let ?ga = "get_attr_node_of (graph gm) t enter_node"
  let ?i = "nid n"
  from assms(1) have d: "distinct (map nid (graph gm))"
    and f: "find_node (graph gm) ?i = Some n" and tn: "target n = Str t"
    and s: "get_submodule gm t = Inr sub_gm"
    by (auto simp: scope_body_segment_def)
  from find_node_split[OF d f] obtain pre post where
    g: "graph gm = pre @ n # post" and pre: "\<forall>m \<in> set pre. nid m \<noteq> ?i"
    and post: "\<forall>m \<in> set post. nid m \<noteq> ?i" by metis
  have ga_id: "nid ?ga \<noteq> ?i"
    using fresh_id_greater[of n "graph gm"] g by (simp add: get_attr_node_of_def create_node_def)
  have ga_refs: "node_refs ?ga = []" by (simp add: get_attr_node_of_def create_node_def node_refs_def)
  have g1: "insert_before (graph gm) ?i ?ga = pre @ ?ga # n # post"
    using g pre by (simp add: insert_before_split)
  have "users (pre @ ?ga # n # post) ?i = users (graph gm) ?i"
    using g ga_refs by (simp add: users_no_refs)
  with assms(3) have "erase_node (pre @ ?ga # n # post) ?i
      = Inr (remove_node (pre @ ?ga # n # post) ?i)"
    by (simp add: erase_node_def)
  moreover have "remove_node (pre @ ?ga # n # post) ?i = pre @ ?ga # post"
    using remove_node_split[where pre="pre @ [?ga]" and i="?i" and post=post and n=n] pre post ga_id by simp
  ultimately have rc: "replace_call (pre @ ?ga # n # post) (graph sub_gm) n enter_node ?ga
      = Inr (pre @ ?ga # post, [])"
    using assms(2) by (simp add: replace_call_def)
  let ?sub' = "GraphModule
                 (filter (\<lambda>m. nid m \<noteq> nid enter_node \<and> nid m \<noteq> nid exit_node) (graph sub_gm))
                 (attrs sub_gm)"
  let ?gm' = "GraphModule (pre @ ?ga # post) (setattr (attrs gm) t (Some ?sub'))"
  have r: "replace_with_hop gm ?i = Inr (?gm', [])"
    by (simp add: replace_with_hop_segment[OF assms(1)] g1 rc)
  have fn: "find_node (graph ?gm') ?i = None"
    using pre post ga_id by (auto simp: find_node_def find_None_iff)
  have w: "filter (\<lambda>m. target m = WrapWithAutocast) (graph ?gm')
        = filter (\<lambda>m. target m = WrapWithAutocast) (graph gm)"
    using g tn by (simp add: get_attr_node_of_def create_node_def)
  have sm: "get_submodule ?gm' t = Inr ?sub'"
    using s by (rule get_submodule_setattr)
  from r g fn w sm show ?thesis by (intro exI[of _ ?gm'] exI[of _ "[]"] exI[of _ pre] exI[of _ post]) simp
qed

theorem replace_with_hop_no_output_witness:
  "scope_body_segment void_split_gm (mk_node 5 ''submod_1'' CallModule (Str ''submod_1'') [])
     ''submod_1'' void_body
     (mk_node 1 ''e1'' CallFunction EnterAutocast [AStr ''cpu''])
     (mk_node 2 ''x1'' CallFunction ExitAutocast [ANode 1])
   \<and> last_output_node (graph void_body) = None
   \<and> users (graph void_split_gm) 5 = []
   \<and> (\<exists>gm' evs.
         replace_with_hop void_split_gm 5 = Inr (gm', evs)
       \<and> find_node (graph gm') 5 = None
       \<and> filter (\<lambda>m. target m = WrapWithAutocast) (graph gm') = []
       \<and> get_submodule gm' ''submod_1'' = Inr (GraphModule [] []))"
proof -
  let ?n = "mk_node 5 ''submod_1'' CallModule (Str ''submod_1'') []"
  have 1: "last_output_node (graph void_body) = None"
    by (simp add: void_body_def ex_defs)
  have 2: "users (graph void_split_gm) (nid ?n) = []"
    by (simp add: void_split_gm_def ex_defs)
  from replace_with_hop_no_output[OF void_segment 1 2]
  obtain gm' evs where
    r: "replace_with_hop void_split_gm (nid ?n) = Inr (gm', evs)"
    and f: "find_node (graph gm') (nid ?n) = None"
    and w: "filter (\<lambda>m. target m = WrapWithAutocast) (graph gm')
        = filter (\<lambda>m. target m = WrapWithAutocast) (graph void_split_gm)"
    and s: "get_submodule gm' ''submod_1''
        = Inr (GraphModule
                 (filter (\<lambda>m. nid m \<noteq> nid (mk_node 1 ''e1'' CallFunction EnterAutocast [AStr ''cpu''])
                            \<and> nid m \<noteq> nid (mk_node 2 ''x1'' CallFunction ExitAutocast [ANode 1]))
                    (graph void_body))
                 (attrs void_body))"
    by blast
  from w have w': "filter (\<lambda>m. target m = WrapWithAutocast) (graph gm') = []"
    by (simp add: void_split_gm_def mk_node_def)
  from s have s': "get_submodule gm' ''submod_1'' = Inr (GraphModule [] [])"
    by (simp add: void_body_def mk_node_def)
  from r have r5: "replace_with_hop void_split_gm 5 = Inr (gm', evs)"
    by (simp add: mk_node_def)
  from f have f5: "find_node (graph gm') 5 = None"
    by (simp add: mk_node_def)
  from 2 have u5: "users (graph void_split_gm) 5 = []"
    by (simp add: mk_node_def)
  have ex: "\<exists>gm' evs.
         replace_with_hop void_split_gm 5 = Inr (gm', evs)
       \<and> find_node (graph gm') 5 = None
       \<and> filter (\<lambda>m. target m = WrapWithAutocast) (graph gm') = []
       \<and> get_submodule gm' ''submod_1'' = Inr (GraphModule [] [])"
    apply (rule exI[of _ gm'], rule exI[of _ evs])
    apply (intro conjI)
    apply (rule r5, rule f5, rule w', rule s')
    done
  show ?thesis
    by (intro conjI) (rule void_segment, rule 1, rule u5, rule ex)
qed

text \<open>
  C6 (as stated). Every scope-body segment whose output instruction returns a single
  value should be replaced by one \<^verbatim>\<open>wrap_with_autocast\<close> node with the name of that
  value. In \<open>scenario_split_gm\<close> the single value is the value of the Exit: the
  replacement fails when it deletes the Exit, which the output instruction still uses.
  In \<open>clash_single_gm\<close> the name \<open>c\<close> of the value is taken in the parent graph: the new
  node is named \<open>c_1\<close>.
\<close>

theorem replace_with_hop_single_output_counterexample:
  "is_autocast_sub_mod scenario_split_gm
      (mk_node 7 ''submod_1'' CallModule (Str ''submod_1'') [ANode 1]) = Inr True
   \<and> map_option args (last_output_node (graph scenario_body)) = Some [ANode 4]
   \<and> outlined_names (replace_with_hop scenario_split_gm 7) = Inl RuntimeError
   \<and> is_autocast_sub_mod clash_single_gm
      (mk_node 5 ''submod_1'' CallModule (Str ''submod_1'') [ANode 0]) = Inr True
   \<and> map_option args (last_output_node (graph single_body)) = Some [ANode 2]
   \<and> outlined_names (replace_with_hop clash_single_gm 5)
       = Inr [''c'', ''submod_2'', ''c_1'', ''output'']"
  by (intro conjI) code_simp+

text \<open>
  C6 (amended). On a scope-body segment whose markers are used as \<open>scope_body_segment\<close>
  says (nothing uses the Exit, only the Exit uses the Enter) and whose output instruction
  returns one node \<open>out_member\<close> of the child with a name that is free in the parent
  graph, the replacement returns. The new graph is the old one with the call replaced by
  the \<^verbatim>\<open>get_attr\<close> node and one \<^verbatim>\<open>wrap_with_autocast\<close> node, which carries the name and
  the metadata of \<open>out_member\<close>; the references to the call are redirected to it, no
  other node is added, and the child comes back without its two markers. When the
  argument of the output instruction is neither a node, a tuple nor a list, the
  replacement aborts with \<^verbatim>\<open>NotImplementedError\<close> carrying the type of that argument.
\<close>

theorem replace_with_hop_single_output:
  assumes seg: "scope_body_segment gm n t sub_gm enter_node exit_node"
    and out: "last_output_node (graph sub_gm) = Some output_node"
      "args output_node = [output_args]"
  shows "(\<forall>v out_member.
            output_args = ANode v \<and> find_node (graph sub_gm) v = Some out_member
          \<and> name out_member \<notin> set (map name (graph_with_get_attr gm n t enter_node)) \<longrightarrow>
           (\<exists>gm' evs pre post hop.
               replace_with_hop gm (nid n) = Inr (gm', evs)
             \<and> graph gm = pre @ n # post
             \<and> graph gm' = pre @ get_attr_node_of (graph gm) t enter_node # hop
                             # map (redirect (nid n) (nid hop)) post
             \<and> fresh_id (graph gm) < nid hop
             \<and> op hop = CallFunction \<and> target hop = WrapWithAutocast
             \<and> args hop = wrap_args enter_node (get_attr_node_of (graph gm) t enter_node) n
             \<and> name hop = name out_member \<and> meta hop = meta out_member
             \<and> get_submodule gm' t
                 = Inr (GraphModule
                     (filter (\<lambda>m. nid m \<noteq> nid enter_node \<and> nid m \<noteq> nid exit_node) (graph sub_gm))
                     (attrs sub_gm))))
     \<and> (type_of output_args \<noteq> TyNode \<and> type_of output_args \<noteq> TyTuple
          \<and> type_of output_args \<noteq> TyList \<longrightarrow>
          replace_with_hop gm (nid n) = Inl (NotImplementedError (type_of output_args)))"
proof (intro conjI allI impI)
  fix v out_member
  assume a: "output_args = ANode v \<and> find_node (graph sub_gm) v = Some out_member
          \<and> name out_member \<notin> set (map name (graph_with_get_attr gm n t enter_node))"
  let ?sub' = "GraphModule
                 (filter (\<lambda>m. nid m \<noteq> nid enter_node \<and> nid m \<noteq> nid exit_node) (graph sub_gm))
                 (attrs sub_gm)"
  define ga where "ga = get_attr_node_of (graph gm) t enter_node"
  define g1 where "g1 = insert_before (graph gm) (nid n) ga"
  define hop where "hop = wrap_node g1 (name out_member) enter_node ga n (meta out_member)"
  have g1': "g1 = graph_with_get_attr gm n t enter_node"
    by (simp add: g1_def ga_def graph_with_get_attr_def)
  have hop_f: "nid hop = fresh_id g1" "args hop = wrap_args enter_node ga n"
    "op hop = CallFunction" "target hop = WrapWithAutocast" "meta hop = meta out_member"
    by (simp_all add: hop_def)
  have hop_n: "name hop = name out_member"
    using a by (simp add: hop_def g1' create_name_unused)
  from segment_layout[OF seg] obtain pre post where
    L: "graph gm = pre @ n # post"
    "\<forall>m \<in> set pre. nid m \<noteq> nid n" "\<forall>m \<in> set post. nid m \<noteq> nid n"
    "\<forall>m \<in> set pre. nid n \<notin> set (node_refs m)"
    "nid n \<notin> set (node_refs n)" by metis
  note P = hop_placed[OF seg L ga_def g1_def hop_f(1,2)]
  define g' where "g' = pre @ ga # hop # map (redirect (nid n) (nid hop)) post"
  define evs where "evs = hook_events (insert_before g1 (nid n) hop) (nid n) (name hop)"
  from a have mo: "member_node (graph sub_gm) output_args = Inr out_member"
    by (simp add: member_node_def)
  have "hop_single_output g1 (graph sub_gm) n enter_node ga output_args = Inr (g', evs)"
    unfolding hop_single_output_def mo thn_simps Let_def hop_def[symmetric] P(1)
      g'_def[symmetric] evs_def[symmetric]
    by simp
  then have "replace_call g1 (graph sub_gm) n enter_node ga = Inr (g', evs)"
    using out a by (simp add: replace_call_def)
  then have r: "replace_with_hop gm (nid n)
      = Inr (GraphModule g' (setattr (attrs gm) t (Some ?sub')), evs)"
    by (simp add: replace_with_hop_segment[OF seg] ga_def g1_def)
  from seg have "get_submodule gm t = Inr sub_gm" by (simp add: scope_body_segment_def)
  then have sm: "get_submodule (GraphModule g' (setattr (attrs gm) t (Some ?sub'))) t = Inr ?sub'"
    by (rule get_submodule_setattr)
  show "\<exists>gm' evs pre post hop.
               replace_with_hop gm (nid n) = Inr (gm', evs)
             \<and> graph gm = pre @ n # post
             \<and> graph gm' = pre @ get_attr_node_of (graph gm) t enter_node # hop
                             # map (redirect (nid n) (nid hop)) post
             \<and> fresh_id (graph gm) < nid hop
             \<and> op hop = CallFunction \<and> target hop = WrapWithAutocast
             \<and> args hop = wrap_args enter_node (get_attr_node_of (graph gm) t enter_node) n
             \<and> name hop = name out_member \<and> meta hop = meta out_member
             \<and> get_submodule gm' t = Inr ?sub'"
  proof (rule exI[of _ "GraphModule g' (setattr (attrs gm) t (Some ?sub'))"],
         rule exI[of _ evs], rule exI[of _ pre], rule exI[of _ post], rule exI[of _ hop],
         intro conjI)
    show "replace_with_hop gm (nid n) = Inr (GraphModule g' (setattr (attrs gm) t (Some ?sub')), evs)"
      by (rule r)
    show "graph gm = pre @ n # post" by (rule L(1))
    show "graph (GraphModule g' (setattr (attrs gm) t (Some ?sub')))
        = pre @ get_attr_node_of (graph gm) t enter_node # hop
            # map (redirect (nid n) (nid hop)) post"
      unfolding g'_def ga_def by simp
    show "fresh_id (graph gm) < nid hop" by (rule P(3))
    show "op hop = CallFunction" "target hop = WrapWithAutocast" by (simp_all add: hop_f)
    show "args hop = wrap_args enter_node (get_attr_node_of (graph gm) t enter_node) n"
      by (simp add: hop_f ga_def)
    show "name hop = name out_member" by (rule hop_n)
    show "meta hop = meta out_member" by (rule hop_f)
    show "get_submodule (GraphModule g' (setattr (attrs gm) t (Some ?sub'))) t = Inr ?sub'"
      by (rule sm)
  qed
next
  assume b: "type_of output_args \<noteq> TyNode \<and> type_of output_args \<noteq> TyTuple
          \<and> type_of output_args \<noteq> TyList"
  let ?ga = "get_attr_node_of (graph gm) t enter_node"
  let ?g1 = "insert_before (graph gm) (nid n) ?ga"
  have "replace_call ?g1 (graph sub_gm) n enter_node ?ga
      = Inl (NotImplementedError (type_of output_args))"
    using out b by (cases output_args) (simp_all add: replace_call_def)
  then show "replace_with_hop gm (nid n) = Inl (NotImplementedError (type_of output_args))"
    by (simp add: replace_with_hop_segment[OF seg])
qed

theorem replace_with_hop_single_output_witness:
  "scope_body_segment single_split_gm (mk_node 5 ''submod_1'' CallModule (Str ''submod_1'') [ANode 0])
     ''submod_1'' single_body
     (mk_node 1 ''b'' CallFunction EnterAutocast [AStr ''cpu''])
     (mk_node 3 ''d'' CallFunction ExitAutocast [ANode 1])
   \<and> (\<exists>gm' evs hop.
         replace_with_hop single_split_gm 5 = Inr (gm', evs)
       \<and> map op (graph gm') = [Placeholder, GetAttr, CallFunction, Output]
       \<and> hop \<in> set (graph gm') \<and> target hop = WrapWithAutocast
       \<and> name hop = ''c'' \<and> meta hop ''val'' = Some (MAtom ''f32[2]''))
   \<and> scope_body_segment int_split_gm (mk_node 5 ''submod_1'' CallModule (Str ''submod_1'') [])
     ''submod_1'' int_body
     (mk_node 1 ''b'' CallFunction EnterAutocast [AStr ''cpu''])
     (mk_node 3 ''d'' CallFunction ExitAutocast [ANode 1])
   \<and> replace_with_hop int_split_gm 5 = Inl (NotImplementedError TyInt)"
proof -
  let ?n = "mk_node 5 ''submod_1'' CallModule (Str ''submod_1'') [ANode 0]"
  let ?c = "(mk_node 2 ''c'' CallFunction (Fn ''g'') [ANode 0])\<lparr>meta := map_of [(''val'', MAtom ''f32[2]'')]\<rparr>"
  let ?out = "mk_node 4 ''output'' Output (Str ''output'') [ANode 2]"
  have 1: "last_output_node (graph single_body) = Some ?out"
    by (simp add: single_body_def ex_defs)
  have 2: "args ?out = [ANode 2]" by (simp add: mk_node_def)
  have "name ?c \<notin> set (map name (graph_with_get_attr single_split_gm ?n ''submod_1''
            (mk_node 1 ''b'' CallFunction EnterAutocast [AStr ''cpu''])))"
    by code_simp
  then have 3: "ANode 2 = ANode 2 \<and> find_node (graph single_body) 2 = Some ?c
      \<and> name ?c \<notin> set (map name (graph_with_get_attr single_split_gm ?n ''submod_1''
            (mk_node 1 ''b'' CallFunction EnterAutocast [AStr ''cpu''])))"
    by (simp add: single_body_def ex_defs)
  from replace_with_hop_single_output[OF single_segment 1 2] 3
  obtain gm' evs pre post hop where
    r: "replace_with_hop single_split_gm (nid ?n) = Inr (gm', evs)"
    and g: "graph single_split_gm = pre @ ?n # post"
    and g': "graph gm' = pre @ get_attr_node_of (graph single_split_gm) ''submod_1''
                (mk_node 1 ''b'' CallFunction EnterAutocast [AStr ''cpu'']) # hop
              # map (redirect (nid ?n) (nid hop)) post"
    and h: "op hop = CallFunction" "target hop = WrapWithAutocast"
      "name hop = name ?c" "meta hop = meta ?c"
    by blast
  from g have "map op (graph single_split_gm) = map op pre @ CallModule # map op post"
    by (simp add: mk_node_def)
  then have "map op pre = [Placeholder] \<and> map op post = [Output]"
    by (simp add: single_split_gm_def mk_node_def Cons_eq_append_conv)
  with g' h have ops: "map op (graph gm') = [Placeholder, GetAttr, CallFunction, Output]"
    by (simp add: get_attr_node_of_def create_node_def comp_def)
  from g' have mem: "hop \<in> set (graph gm')" by simp
  let ?m = "mk_node 5 ''submod_1'' CallModule (Str ''submod_1'') []"
  let ?iout = "mk_node 4 ''output'' Output (Str ''output'') [AInt 3]"
  have 4: "last_output_node (graph int_body) = Some ?iout"
    by (simp add: int_body_def ex_defs)
  have 5: "args ?iout = [AInt 3]" by (simp add: mk_node_def)
  from replace_with_hop_single_output[OF int_segment 4 5]
  have i: "replace_with_hop int_split_gm (nid ?m) = Inl (NotImplementedError TyInt)"
    by simp
  from r have r5: "replace_with_hop single_split_gm 5 = Inr (gm', evs)"
    by (simp add: mk_node_def)
  from i have i5: "replace_with_hop int_split_gm 5 = Inl (NotImplementedError TyInt)"
    by (simp add: mk_node_def)
  from h have nm: "name hop = ''c''" and mv: "meta hop ''val'' = Some (MAtom ''f32[2]'')"
    by (simp_all add: mk_node_def)
  have ex: "\<exists>gm' evs hop.
         replace_with_hop single_split_gm 5 = Inr (gm', evs)
       \<and> map op (graph gm') = [Placeholder, GetAttr, CallFunction, Output]
       \<and> hop \<in> set (graph gm') \<and> target hop = WrapWithAutocast
       \<and> name hop = ''c'' \<and> meta hop ''val'' = Some (MAtom ''f32[2]'')"
    apply (rule exI[of _ gm'], rule exI[of _ evs], rule exI[of _ hop])
    apply (intro conjI)
    apply (rule r5, rule ops, rule mem, rule h(2), rule nm, rule mv)
    done
  show ?thesis
    by (intro conjI) (rule single_segment, rule ex, rule int_segment, rule i5)
qed

text \<open>
  C5 (as stated). Every scope-body segment whose output instruction returns a tuple
  should be replaced by one \<^verbatim>\<open>wrap_with_autocast\<close> node whose extractions take the names
  of the members. In \<open>exit_tuple_gm\<close> the value of the Exit is a member of the tuple: the
  replacement fails when it deletes the Exit, which the output instruction still uses.
  In \<open>clash_tuple_gm\<close> the name \<open>c\<close> of the first member is taken in the parent graph:
  the first extraction is named \<open>c_1\<close>.
\<close>

theorem replace_with_hop_tuple_output_counterexample:
  "is_autocast_sub_mod exit_tuple_gm
      (mk_node 6 ''submod_1'' CallModule (Str ''submod_1'') [ANode 0]) = Inr True
   \<and> map_option args (last_output_node (graph exit_tuple_body)) = Some [ATuple [ANode 2, ANode 4]]
   \<and> outlined_names (replace_with_hop exit_tuple_gm 6) = Inl RuntimeError
   \<and> is_autocast_sub_mod clash_tuple_gm
      (mk_node 6 ''submod_1'' CallModule (Str ''submod_1'') [ANode 0]) = Inr True
   \<and> map_option args (last_output_node (graph tuple_body)) = Some [ATuple [ANode 2, ANode 3]]
   \<and> outlined_names (replace_with_hop clash_tuple_gm 6)
       = Inr [''c'', ''submod_2'', ''wrap_with_autocast'', ''c_1'', ''c2'', ''output'']"
  by (intro conjI) code_simp+

text \<open>
  C5 (amended). On a scope-body segment whose markers are used as \<open>scope_body_segment\<close>
  says (nothing uses the Exit, only the Exit uses the Enter) and whose output instruction
  returns a tuple or a list of child nodes carrying \<^verbatim>\<open>val\<close>, where the users of the call
  are extractions at different indices of that tuple and the names of the members differ
  from each other and are free in the parent graph, the replacement returns. The new
  graph is the old one with the call replaced by the \<^verbatim>\<open>get_attr\<close> node and one
  \<^verbatim>\<open>wrap_with_autocast\<close> node; the \<^verbatim>\<open>val\<close> of that node is the tuple of the \<^verbatim>\<open>val\<close> of the
  members; every user of that node is the extraction at some index \<open>j\<close> and has the name
  and the metadata of member \<open>j\<close>; the child comes back without its two markers.
\<close>

theorem replace_with_hop_tuple_output:
  assumes seg: "scope_body_segment gm n t sub_gm enter_node exit_node"
    and out: "last_output_node (graph sub_gm) = Some output_node"
      "args output_node = [output_args]"
      "output_args = ATuple members \<or> output_args = AList members"
    and mem: "list_all2 (\<lambda>a mn. member_node (graph sub_gm) a = Inr mn \<and> meta mn ''val'' \<noteq> None)
                members mns"
    and getitems: "\<forall>u \<in> set (users (graph gm) (nid n)).
                     \<exists>j < length members. args u = [ANode (nid n), AInt (int j)]"
      "distinct (map args (users (graph gm) (nid n)))"
    and names: "distinct (map name mns)"
      "\<forall>mn \<in> set mns.
          name mn \<notin> set (map name (graph_with_get_attr gm n t enter_node))
        \<and> name mn \<noteq> create_name (map name (graph_with_get_attr gm n t enter_node))
                       ''wrap_with_autocast''"
  shows "\<exists>gm' evs pre post hop.
        replace_with_hop gm (nid n) = Inr (gm', evs)
      \<and> graph gm = pre @ n # post
      \<and> graph gm' = pre @ get_attr_node_of (graph gm) t enter_node # hop
                      # map (rename_users (nid hop) mns \<circ> redirect (nid n) (nid hop)) post
      \<and> fresh_id (graph gm) < nid hop
      \<and> op hop = CallFunction \<and> target hop = WrapWithAutocast
      \<and> args hop = wrap_args enter_node (get_attr_node_of (graph gm) t enter_node) n
      \<and> meta hop ''val'' = Some (MTuple (map (\<lambda>mn. the (meta mn ''val'')) mns))
      \<and> (\<forall>u \<in> set (users (graph gm') (nid hop)).
            \<exists>j < length mns. args u = [ANode (nid hop), AInt (int j)]
               \<and> name u = name (mns ! j) \<and> meta u = meta (mns ! j))
      \<and> get_submodule gm' t
          = Inr (GraphModule
              (filter (\<lambda>m. nid m \<noteq> nid enter_node \<and> nid m \<noteq> nid exit_node) (graph sub_gm))
              (attrs sub_gm))"
proof -
  let ?i = "nid n"
  let ?vals = "map (\<lambda>mn. the (meta mn ''val'')) mns"
  let ?sub' = "GraphModule
                 (filter (\<lambda>m. nid m \<noteq> nid enter_node \<and> nid m \<noteq> nid exit_node) (graph sub_gm))
                 (attrs sub_gm)"
  define ga where "ga = get_attr_node_of (graph gm) t enter_node"
  define g1 where "g1 = insert_before (graph gm) ?i ga"
  define hop where
    "hop = wrap_node g1 ''wrap_with_autocast'' enter_node ga n (wrap_meta ?vals enter_node)"
  define c where "c = nid hop"
  have hop_f: "nid hop = fresh_id g1" "args hop = wrap_args enter_node ga n"
    "op hop = CallFunction" "target hop = WrapWithAutocast"
    "meta hop ''val'' = Some (MTuple ?vals)"
    "name hop = create_name (map name g1) ''wrap_with_autocast''"
    by (simp_all add: hop_def wrap_meta_def)
  have g1': "g1 = graph_with_get_attr gm n t enter_node"
    by (simp add: g1_def ga_def graph_with_get_attr_def)
  from seg have d: "distinct (map nid (graph gm))" and er: "node_refs enter_node = []"
    and sm0: "get_submodule gm t = Inr sub_gm"
    by (auto simp: scope_body_segment_def)
  from segment_layout[OF seg] obtain pre post where
    L: "graph gm = pre @ n # post"
    "\<forall>m \<in> set pre. nid m \<noteq> ?i" "\<forall>m \<in> set post. nid m \<noteq> ?i"
    "\<forall>m \<in> set pre. ?i \<notin> set (node_refs m)"
    "?i \<notin> set (node_refs n)"
    and bound: "\<forall>m \<in> set (graph gm). \<forall>x \<in> set (node_refs m). x < fresh_id (graph gm)"
    by metis
  note P = hop_placed[OF seg L ga_def g1_def hop_f(1,2), folded c_def]
  define g3 where "g3 = pre @ ga # hop # map (redirect ?i c) post"
  have ga_id: "nid ga = fresh_id (graph gm)"
    by (simp add: ga_def get_attr_node_of_def create_node_def)
  have ga_refs: "node_refs ga = []"
    by (simp add: ga_def get_attr_node_of_def create_node_def node_refs_def)
  have hop_refs: "node_refs hop = fresh_id (graph gm) # node_refs n"
    using node_refs_wrap_args[OF hop_f(2)] er ga_id by simp
  \<comment> \<open>no node of the old graph refers to the new node\<close>
  have old: "\<forall>m \<in> set (graph gm). c \<notin> set (node_refs m)"
    using bound P(3) by fastforce
  have d3: "distinct (map nid g3)"
  proof -
    have "\<forall>m \<in> set (graph gm). nid m < fresh_id (graph gm)"
      by (simp add: fresh_id_greater)
    with P(3) have "\<forall>m \<in> set (graph gm). nid m \<noteq> fresh_id (graph gm) \<and> nid m \<noteq> c"
      by fastforce
    with d L(1) P(3) show ?thesis by (auto simp: g3_def ga_id c_def[symmetric] comp_def)
  qed
  \<comment> \<open>the users of the new node are the redirected users of the call\<close>
  have us3: "users g3 c = map (redirect ?i c) (users post ?i)"
  proof -
    have "users pre c = []" using old L(1) by (intro users_none) simp
    moreover have "c \<notin> set (node_refs hop)"
      using old L(1) P(3) by (simp add: hop_refs)
    moreover have "users (map (redirect ?i c) post) c = map (redirect ?i c) (users post ?i)"
      using old L(1) by (intro users_map_redirect) simp
    ultimately show ?thesis
      by (simp add: g3_def users_append users_Cons ga_refs)
  qed
  have up: "set (users post ?i) \<subseteq> set (users (graph gm) ?i)"
    by (auto simp: L(1) users_iff)
  have shape: "\<forall>u \<in> set (users g3 c). \<exists>j < length members. args u = [ANode c, AInt (int j)]"
  proof
    fix u assume "u \<in> set (users g3 c)"
    then obtain m where m: "m \<in> set (users post ?i)" "u = redirect ?i c m"
      by (auto simp: us3)
    with up getitems(1) obtain j where "j < length members" "args m = [ANode ?i, AInt (int j)]"
      by blast
    with m(2) show "\<exists>j < length members. args u = [ANode c, AInt (int j)]"
      by (auto simp: subst_node_def)
  qed
  have da: "distinct (map args (users g3 c))"
  proof -
    have "users pre ?i = []" using L(4) by (intro users_none) simp
    with L(1,5) have "users (graph gm) ?i = users post ?i"
      by (simp add: users_append users_Cons)
    with getitems have "distinct (map args (users post ?i))"
      "\<forall>u \<in> set (users post ?i). \<exists>j. args u = [ANode ?i, AInt j]"
      by auto
    then show ?thesis unfolding us3 by (rule distinct_redirected_args)
  qed
  from mem have mem': "list_all2 (\<lambda>a mn. member_node (graph sub_gm) a = Inr mn) members mns"
    by (rule list_all2_mono) simp
  from mem have len: "length members = length mns" by (rule list_all2_lengthD)
  have free: "\<forall>u \<in> set (users g3 c). name (mns ! getitem_index u) \<notin> name ` set g3"
  proof
    fix u assume u: "u \<in> set (users g3 c)"
    with shape obtain j where j: "j < length members" "args u = [ANode c, AInt (int j)]"
      by blast
    then have "getitem_index u = j" by (simp add: getitem_index_def)
    moreover from j(1) len have "mns ! j \<in> set mns" by simp
    with names(2) have "name (mns ! j) \<notin> name ` set g1" "name (mns ! j) \<noteq> name hop"
      by (auto simp: g1' hop_f(6))
    moreover have "name ` set g3 \<subseteq> insert (name hop) (name ` set g1)"
      by (auto simp: g3_def P(2))
    ultimately show "name (mns ! getitem_index u) \<notin> name ` set g3" by auto
  qed
  from rename_all_users[OF mem' names(1) d3 shape da free] obtain evs where
    loop: "rename_getitem_users (graph sub_gm) members (users g3 c) g3
            = Inr (map (rename_users c mns) g3, evs)" by blast
  define g4 where "g4 = pre @ ga # hop # map (rename_users c mns \<circ> redirect ?i c) post"
  have g4: "map (rename_users c mns) g3 = g4"
  proof -
    have "map (rename_users c mns) pre = pre"
      using old L(1) by (intro map_idI) (simp add: rename_users_def)
    moreover have "rename_users c mns ga = ga"
      by (simp add: rename_users_def ga_refs)
    moreover have "rename_users c mns hop = hop"
      using old L(1) P(3) by (simp add: rename_users_def hop_refs)
    ultimately show ?thesis by (simp add: g3_def g4_def)
  qed
  define evs' where "evs' = hook_events (insert_before g1 ?i hop) ?i (name hop) @ evs"
  have "hop_tuple_output g1 (graph sub_gm) n enter_node ga members = Inr (g4, evs')"
    unfolding hop_tuple_output_def member_vals_all[OF mem] thn_simps Let_def
      hop_def[symmetric] c_def[symmetric] P(1) g3_def[symmetric] loop g4 evs'_def
    by simp
  then have "replace_call g1 (graph sub_gm) n enter_node ga = Inr (g4, evs')"
    using out by (auto simp: replace_call_def)
  then have r: "replace_with_hop gm ?i
      = Inr (GraphModule g4 (setattr (attrs gm) t (Some ?sub')), evs')"
    by (simp add: replace_with_hop_segment[OF seg] ga_def g1_def)
  have sm: "get_submodule (GraphModule g4 (setattr (attrs gm) t (Some ?sub'))) t = Inr ?sub'"
    using sm0 by (rule get_submodule_setattr)
  have users4: "\<exists>j < length mns. args u = [ANode c, AInt (int j)]
               \<and> name u = name (mns ! j) \<and> meta u = meta (mns ! j)"
    if u: "u \<in> set (users g4 c)" for u
  proof -
    from u have "u \<in> set (map (rename_users c mns) g3)" "c \<in> set (node_refs u)"
      by (simp_all add: g4 users_iff)
    then obtain m where m: "m \<in> set g3" "u = rename_users c mns m" by auto
    with \<open>c \<in> set (node_refs u)\<close> have cm: "c \<in> set (node_refs m)"
      by (simp add: rename_users_def split: if_splits)
    with m have um: "u = renamed mns m" by (simp add: rename_users_def)
    from m(1) cm have "m \<in> set (users g3 c)" by (simp add: users_iff)
    with shape obtain j where j: "j < length members" "args m = [ANode c, AInt (int j)]"
      by blast
    then have "getitem_index m = j" by (simp add: getitem_index_def)
    with um j len show ?thesis by (auto simp: renamed_def)
  qed
  show ?thesis
  proof (rule exI[of _ "GraphModule g4 (setattr (attrs gm) t (Some ?sub'))"],
         rule exI[of _ evs'], rule exI[of _ pre], rule exI[of _ post], rule exI[of _ hop],
         intro conjI)
    show "replace_with_hop gm ?i = Inr (GraphModule g4 (setattr (attrs gm) t (Some ?sub')), evs')"
      by (rule r)
    show "graph gm = pre @ n # post" by (rule L(1))
    show "graph (GraphModule g4 (setattr (attrs gm) t (Some ?sub')))
        = pre @ get_attr_node_of (graph gm) t enter_node # hop
            # map (rename_users (nid hop) mns \<circ> redirect ?i (nid hop)) post"
      unfolding g4_def ga_def c_def by simp
    show "fresh_id (graph gm) < nid hop" using P(3) by (simp add: c_def)
    show "op hop = CallFunction" "target hop = WrapWithAutocast" by (simp_all add: hop_f)
    show "args hop = wrap_args enter_node (get_attr_node_of (graph gm) t enter_node) n"
      by (simp add: hop_f ga_def)
    show "meta hop ''val'' = Some (MTuple ?vals)" by (rule hop_f)
    show "\<forall>u \<in> set (users (graph (GraphModule g4 (setattr (attrs gm) t (Some ?sub')))) (nid hop)).
            \<exists>j < length mns. args u = [ANode (nid hop), AInt (int j)]
               \<and> name u = name (mns ! j) \<and> meta u = meta (mns ! j)"
      using users4 by (simp add: c_def)
    show "get_submodule (GraphModule g4 (setattr (attrs gm) t (Some ?sub'))) t = Inr ?sub'"
      by (rule sm)
  qed
qed

theorem replace_with_hop_tuple_output_witness:
  "scope_body_segment tuple_split_gm (mk_node 6 ''submod_1'' CallModule (Str ''submod_1'') [ANode 0])
     ''submod_1'' tuple_body
     (mk_node 1 ''b'' CallFunction EnterAutocast [AStr ''cpu''])
     (mk_node 4 ''d'' CallFunction ExitAutocast [ANode 1])
   \<and> (\<exists>gm' evs hop.
         replace_with_hop tuple_split_gm 6 = Inr (gm', evs)
       \<and> hop \<in> set (graph gm') \<and> target hop = WrapWithAutocast
       \<and> meta hop ''val'' = Some (MTuple [MAtom ''f32[2]'', MAtom ''f32[3]''])
       \<and> (\<forall>u \<in> set (users (graph gm') (nid hop)).
             name u = ''c'' \<and> meta u ''val'' = Some (MAtom ''f32[2]'')
           \<or> name u = ''c2'' \<and> meta u ''val'' = Some (MAtom ''f32[3]'')))
   \<and> outlined_names (replace_with_hop tuple_split_gm 6)
       = Inr [''x'', ''submod_2'', ''wrap_with_autocast'', ''c'', ''c2'', ''output'']"
proof -
  let ?n = "mk_node 6 ''submod_1'' CallModule (Str ''submod_1'') [ANode 0]"
  let ?c = "(mk_node 2 ''c'' CallFunction (Fn ''g'') [ANode 0])\<lparr>meta := map_of [(''val'', MAtom ''f32[2]'')]\<rparr>"
  let ?c2 = "(mk_node 3 ''c2'' CallFunction (Fn ''g'') [ANode 2])\<lparr>meta := map_of [(''val'', MAtom ''f32[3]'')]\<rparr>"
  let ?out = "mk_node 5 ''output'' Output (Str ''output'') [ATuple [ANode 2, ANode 3]]"
  have 1: "last_output_node (graph tuple_body) = Some ?out"
    by (simp add: tuple_body_def ex_defs)
  have 2: "args ?out = [ATuple [ANode 2, ANode 3]]" by (simp add: mk_node_def)
  have 3: "ATuple [ANode 2, ANode 3] = ATuple [ANode 2, ANode 3] \<or> ATuple [ANode 2, ANode 3] = AList [ANode 2, ANode 3]"
    by simp
  have 4: "list_all2 (\<lambda>a mn. member_node (graph tuple_body) a = Inr mn \<and> meta mn ''val'' \<noteq> None)
             [ANode 2, ANode 3] [?c, ?c2]"
    by (simp add: tuple_body_def ex_defs)
  have 5: "\<forall>u \<in> set (users (graph tuple_split_gm) (nid ?n)).
             \<exists>j < length [ANode 2, ANode 3]. args u = [ANode (nid ?n), AInt (int j)]"
    by (auto simp: tuple_split_gm_def ex_defs intro: exI[of _ 0] exI[of _ 1])
  have 6: "distinct (map args (users (graph tuple_split_gm) (nid ?n)))"
    by (simp add: tuple_split_gm_def ex_defs)
  have 7: "distinct (map name [?c, ?c2])" by (simp add: mk_node_def)
  have "list_all (\<lambda>nm.
            nm \<notin> set (map name (graph_with_get_attr tuple_split_gm ?n ''submod_1''
                  (mk_node 1 ''b'' CallFunction EnterAutocast [AStr ''cpu''])))
          \<and> nm \<noteq> create_name (map name (graph_with_get_attr tuple_split_gm ?n ''submod_1''
                  (mk_node 1 ''b'' CallFunction EnterAutocast [AStr ''cpu''])))
                       ''wrap_with_autocast'') [''c'', ''c2'']"
    by code_simp
  then have 8: "\<forall>mn \<in> set [?c, ?c2].
          name mn \<notin> set (map name (graph_with_get_attr tuple_split_gm ?n ''submod_1''
                  (mk_node 1 ''b'' CallFunction EnterAutocast [AStr ''cpu''])))
        \<and> name mn \<noteq> create_name (map name (graph_with_get_attr tuple_split_gm ?n ''submod_1''
                  (mk_node 1 ''b'' CallFunction EnterAutocast [AStr ''cpu''])))
                       ''wrap_with_autocast''"
    by (simp add: mk_node_def)
  have 9: "outlined_names (replace_with_hop tuple_split_gm 6)
       = Inr [''x'', ''submod_2'', ''wrap_with_autocast'', ''c'', ''c2'', ''output'']"
    by code_simp
  from replace_with_hop_tuple_output[OF tuple_segment 1 2 3 4 5 6 7 8]
  obtain gm' evs pre post hop where
    r: "replace_with_hop tuple_split_gm (nid ?n) = Inr (gm', evs)"
    and g': "graph gm' = pre @ get_attr_node_of (graph tuple_split_gm) ''submod_1''
                (mk_node 1 ''b'' CallFunction EnterAutocast [AStr ''cpu'']) # hop
              # map (rename_users (nid hop) [?c, ?c2] \<circ> redirect (nid ?n) (nid hop)) post"
    and h: "target hop = WrapWithAutocast"
      "meta hop ''val'' = Some (MTuple (map (\<lambda>mn. the (meta mn ''val'')) [?c, ?c2]))"
    and u: "\<forall>u \<in> set (users (graph gm') (nid hop)).
            \<exists>j < length [?c, ?c2]. args u = [ANode (nid hop), AInt (int j)]
               \<and> name u = name ([?c, ?c2] ! j) \<and> meta u = meta ([?c, ?c2] ! j)"
    by blast
  have u': "\<forall>u \<in> set (users (graph gm') (nid hop)).
             name u = ''c'' \<and> meta u ''val'' = Some (MAtom ''f32[2]'')
           \<or> name u = ''c2'' \<and> meta u ''val'' = Some (MAtom ''f32[3]'')"
  proof
    fix x assume "x \<in> set (users (graph gm') (nid hop))"
    with u obtain j where j: "j < length [?c, ?c2]" "name x = name ([?c, ?c2] ! j)"
      "meta x = meta ([?c, ?c2] ! j)" by blast
    then have "j = 0 \<or> j = 1" by auto
    with j show "name x = ''c'' \<and> meta x ''val'' = Some (MAtom ''f32[2]'')
           \<or> name x = ''c2'' \<and> meta x ''val'' = Some (MAtom ''f32[3]'')"
      by (auto simp: mk_node_def)
  qed
  from g' have mem: "hop \<in> set (graph gm')" by simp
  from r have r6: "replace_with_hop tuple_split_gm 6 = Inr (gm', evs)"
    by (simp add: mk_node_def)
  from h have mv: "meta hop ''val'' = Some (MTuple [MAtom ''f32[2]'', MAtom ''f32[3]''])"
    by (simp add: mk_node_def)
  have ex: "\<exists>gm' evs hop.
         replace_with_hop tuple_split_gm 6 = Inr (gm', evs)
       \<and> hop \<in> set (graph gm') \<and> target hop = WrapWithAutocast
       \<and> meta hop ''val'' = Some (MTuple [MAtom ''f32[2]'', MAtom ''f32[3]''])
       \<and> (\<forall>u \<in> set (users (graph gm') (nid hop)).
             name u = ''c'' \<and> meta u ''val'' = Some (MAtom ''f32[2]'')
           \<or> name u = ''c2'' \<and> meta u ''val'' = Some (MAtom ''f32[3]''))"
    apply (rule exI[of _ gm'], rule exI[of _ evs], rule exI[of _ hop])
    apply (intro conjI)
    apply (rule r6, rule mem, rule h(1), rule mv, rule u')
    done
  show ?thesis
    by (intro conjI) (rule tuple_segment, rule ex, rule 9)
qed

end
